theory Spec2Isabelle
  imports Complex_Main "HOL-Library.Log_Nat" "HOL-Library.AList" "HOL-Library.Char_ord" "HOL-Library.List_Lexorder"
begin

section \<open>JavaScript numbers\<close>

text \<open>
  The program is JavaScript: every number is an IEEE-754 double, and every arithmetic
  operation gives the double nearest to the exact result (ties to even). The numbers that
  the program reads (scores, counts, weights, array lengths) are integers and are modelled as
  \<open>int\<close> or \<open>nat\<close>; what the program computes from them is a rational, the value of a
  double, and each operation rounds: \<open>fl\<close> rounds a rational to 53 significant bits. The
  rounding decides the value of \<open>Math.round\<close> at a tie and the value of a sum beyond
  \<open>2^53\<close>. The exponent range of doubles (overflow, subnormals) is not modelled; the
  quantities here are far inside it. Where a computed number can be \<open>NaN\<close>, it is an \<open>option\<close>
  and \<open>None\<close> stands for \<open>NaN\<close>.
\<close>

definition expo :: "rat \<Rightarrow> int" where
  \<comment> \<open>the binary exponent \<open>\<lfloor>log\<^sub>2 \<bar>x\<bar>\<rfloor>\<close> of a non-zero rational\<close>
  "expo x = (if 1 \<le> \<bar>x\<bar> then bitlen \<lfloor>\<bar>x\<bar>\<rfloor> - 1 else - bitlen (\<lceil>1 / \<bar>x\<bar>\<rceil> - 1))"

definition round_even :: "rat \<Rightarrow> int" where
  \<comment> \<open>nearest integer, a tie going to the even neighbour\<close>
  "round_even y = (let f = \<lfloor>y\<rfloor>; d = y - of_int f in
     if d < 1 / 2 then f else if 1 / 2 < d then f + 1 else if even f then f else f + 1)"

definition fl :: "rat \<Rightarrow> rat" where
  \<comment> \<open>round to nearest double: scale the significand into \<open>[2^52, 2^53)\<close>, round, scale back\<close>
  "fl x = (if x = 0 then 0 else
     let e = expo x - 52 in
     sgn x * of_int (round_even (\<bar>x\<bar> * 2 powi (- e))) * 2 powi e)"

definition js_div :: "rat \<Rightarrow> rat \<Rightarrow> rat" where
  \<comment> \<open>JavaScript \<open>a / b\<close> for \<open>b \<noteq> 0\<close>\<close>
  "js_div a b = fl (a / b)"

definition js_mul :: "rat \<Rightarrow> rat \<Rightarrow> rat" where
  \<comment> \<open>JavaScript \<open>a * b\<close>\<close>
  "js_mul a b = fl (a * b)"

definition js_add :: "rat \<Rightarrow> rat \<Rightarrow> rat" where
  \<comment> \<open>JavaScript \<open>a + b\<close> on numbers\<close>
  "js_add a b = fl (a + b)"

definition js_sub :: "rat \<Rightarrow> rat \<Rightarrow> rat" where
  \<comment> \<open>JavaScript \<open>a - b\<close>\<close>
  "js_sub a b = fl (a - b)"

definition Math_round :: "rat \<Rightarrow> int" where
  \<comment> \<open>\<open>Math.round\<close>: the nearest integer, a tie going towards \<open>+\<infinity>\<close>\<close>
  "Math_round x = \<lfloor>x + 1 / 2\<rfloor>"

definition js_or :: "int \<Rightarrow> int \<Rightarrow> int" where
  \<comment> \<open>\<open>a || b\<close> on numbers: \<open>0\<close> is falsy\<close>
  "js_or a b = (if a \<noteq> 0 then a else b)"

definition js_or_undef :: "int option \<Rightarrow> int \<Rightarrow> int" where
  \<comment> \<open>\<open>a || b\<close> where \<open>a\<close> may be \<open>undefined\<close> (\<open>None\<close>); \<open>undefined\<close>, \<open>NaN\<close> and \<open>0\<close> are falsy\<close>
  "js_or_undef a b = (case a of None \<Rightarrow> b | Some v \<Rightarrow> js_or v b)"

definition objectPrototypeKeys :: "string list" where
  \<comment> \<open>the names of the properties that every object literal inherits from \<open>Object.prototype\<close>\<close>
  "objectPrototypeKeys =
     [''constructor'', ''__defineGetter__'', ''__defineSetter__'', ''hasOwnProperty'',
      ''__lookupGetter__'', ''__lookupSetter__'', ''isPrototypeOf'', ''propertyIsEnumerable'',
      ''toString'', ''valueOf'', ''__proto__'', ''toLocaleString'']"


section \<open>Score Calculator: \<open>calculateScore\<close> (scanner-service.js)\<close>

text \<open>
  The rule engine's result: \<open>passes\<close> and \<open>violations\<close> are lists of rule results, each with
  an \<open>impact\<close> and the list of matched \<open>nodes\<close>. The impact is a string; the engine's
  \<open>null\<close> impact indexes the weight table as the key \<open>null\<close>. The weight table is an object
  literal: indexing it with the name of a property inherited from \<open>Object.prototype\<close> gives
  that property, a function or an object, which is truthy and not a number, so that the
  product with the node count, the accumulated weight and the score are \<open>NaN\<close>.
\<close>

record axe_node =
  html :: string
  target :: "string list"
  failureSummary :: string

record axe_rule =
  ruleId :: string
  impact :: string
  nodes :: "axe_node list"

record axe_results =
  passes :: "axe_rule list"
  violations :: "axe_rule list"

definition impactWeights :: "(string \<times> int) list" where
  "impactWeights = [(''critical'', 4), (''serious'', 3), (''moderate'', 2), (''minor'', 1)]"

definition impactWeight :: "string \<Rightarrow> int option" where
  \<comment> \<open>\<open>{critical: 4, serious: 3, moderate: 2, minor: 1}[violation.impact] || 1\<close>;
      \<open>None\<close>: an inherited property, whose product with a number is \<open>NaN\<close>\<close>
  "impactWeight i =
     (case map_of impactWeights i of
        Some w \<Rightarrow> Some (js_or w 1)
      | None \<Rightarrow> if i \<in> set objectPrototypeKeys then None else Some 1)"

fun weighViolations :: "axe_rule list \<Rightarrow> rat option \<Rightarrow> rat option" where
  \<comment> \<open>the \<open>forEach\<close> loop, the accumulator \<open>weightedViolations\<close> passed along\<close>
  "weighViolations [] weightedViolations = weightedViolations"
| "weighViolations (violation # rest) weightedViolations =
     weighViolations rest
       (case (weightedViolations, impactWeight (impact violation)) of
          (Some weighted, Some w) \<Rightarrow>
            Some (js_add weighted (js_mul (of_int w) (of_nat (length (nodes violation)))))
        | _ \<Rightarrow> None)"

definition calculateScore :: "axe_results \<Rightarrow> int option" where
  \<comment> \<open>\<open>None\<close>: the function returns \<open>NaN\<close>\<close>
  "calculateScore results =
     (let totalTests = js_add (of_nat (length (passes results))) (of_nat (length (violations results))) in
      if totalTests = 0 then Some 100
      else
        (case weighViolations (violations results) (Some 0) of
           None \<Rightarrow> None
         | Some weightedViolations \<Rightarrow>
             let maxPossibleWeight = js_mul totalTests 4;
                 score = Math_round (js_mul
                           (js_div (js_sub maxPossibleWeight weightedViolations) maxPossibleWeight)
                           100)
             in Some (max 0 (min 100 score))))"

text \<open>
  The formula of the specification, section 4.6, read in exact arithmetic: for comparison
  with \<open>calculateScore\<close>.
\<close>

definition impactWeight_spec :: "string \<Rightarrow> int" where
  "impactWeight_spec i =
     (if i = ''critical'' then 4 else if i = ''serious'' then 3
      else if i = ''moderate'' then 2 else 1)"

definition weightedViolations_spec :: "axe_rule list \<Rightarrow> int" where
  "weightedViolations_spec vs = (\<Sum>v\<leftarrow>vs. impactWeight_spec (impact v) * int (length (nodes v)))"

definition score_spec :: "axe_rule list \<Rightarrow> nat \<Rightarrow> int" where
  "score_spec vs passCount =
     (let totalTests = int passCount + int (length vs) in
      if totalTests = 0 then 100
      else
        let maxPossibleWeight = totalTests * 4 in
        max 0 (min 100 (Math_round
          ((of_int (maxPossibleWeight - weightedViolations_spec vs) / of_int maxPossibleWeight)
             * 100))))"

text \<open>Example inputs of the score calculator.\<close>

definition a_node :: axe_node where
  "a_node = \<lparr>html = ''<img>'', target = [''img''], failureSummary = ''''\<rparr>"

definition a_pass :: axe_rule where
  "a_pass = \<lparr>ruleId = ''document-title'', impact = ''serious'', nodes = [a_node]\<rparr>"

definition tie_results :: axe_results where
  \<comment> \<open>eight passed rules, a critical violation on four nodes and a minor one on one node\<close>
  "tie_results =
     \<lparr>passes = replicate 8 a_pass,
      violations = [\<lparr>ruleId = ''image-alt'', impact = ''critical'', nodes = replicate 4 a_node\<rparr>,
                    \<lparr>ruleId = ''region'', impact = ''minor'', nodes = [a_node]\<rparr>]\<rparr>"

definition inherited_results :: axe_results where
  \<comment> \<open>a violation whose impact is the name of an inherited property\<close>
  "inherited_results =
     \<lparr>passes = [],
      violations = [\<lparr>ruleId = ''region'', impact = ''constructor'', nodes = [a_node]\<rparr>]\<rparr>"


section \<open>Aggregator: \<open>aggregateResults\<close> (the action's main class)\<close>

text \<open>
  A scan result is the scanner's response for one page, or the record the action builds when
  the scan of a page fails (status \<open>failed\<close> and a zero summary). Optional properties of the
  JavaScript objects are \<open>option\<close>s: \<open>None\<close> stands for \<open>undefined\<close> or \<open>null\<close>. The enhanced
  analysis comes from an external service; of its content the aggregation reads the enhanced
  score and the remediation plan. The business-impact roll-up (\<open>aggregateBusinessImpact\<close>,
  \<open>getTopBusinessAreas\<close>) and the \<open>scanId\<close> are independent of everything stated below and
  are left out of the report record. The object \<open>violationsBySeverity\<close> is the list of its own
  properties in insertion order. Indexing it with the name of a property inherited from
  \<open>Object.prototype\<close> gives that property, which is not \<open>undefined\<close>; the \<open>+=\<close> then
  makes a string of it and, except for the accessor \<open>__proto__\<close>, stores the string as a new
  own property. The text of such a string is not modelled: the value is \<open>Text\<close>.
\<close>

record remediation_issue =
  title :: string
  description :: string
  effortClass :: string

record estimated_effort =
  quickFixes :: "int option"
  mediumFixes :: "int option"
  complexFixes :: "int option"

record page_remediation_plan =
  estimatedEffort :: "estimated_effort option"
  priority1 :: "remediation_issue list option"

record enhanced_analysis =
  enhancedScore :: "int option"
  remediationPlan :: "page_remediation_plan option"

record page_violation =
  vImpact :: string
  nodeCount :: "int option"
  vNodes :: "axe_node list option"

record scan_summary =
  score :: int
  violationCount :: int
  passCount :: int

record scan_result =
  url :: string
  status :: string
  summary :: scan_summary
  scanViolations :: "page_violation list"
  enhancedAnalysis :: "enhanced_analysis option"

datatype histogram_value = Count rat | Text

record aggregated_plan =
  totalQuickFixes :: rat
  totalMediumFixes :: rat
  totalComplexFixes :: rat
  topPriority1Issues :: "remediation_issue list"
  estimatedTotalHours :: int

record page_result =
  pageUrl :: string
  pageStatus :: string
  pageScore :: int
  basicScore :: int
  pageViolationCount :: int
  priority1Fixes :: "int option"

record aggregate_report =
  totalScans :: nat
  completedScans :: nat
  failedScans :: nat
  overallScore :: int
  totalViolations :: rat
  totalPasses :: rat
  violationsBySeverity :: "(string \<times> histogram_value) list"
  hasEnhancedAnalysis :: bool
  aggregatedRemediationPlan :: "aggregated_plan option"
  pageResults :: "page_result list"

definition scoreOf :: "scan_result \<Rightarrow> int" where
  \<comment> \<open>\<open>r.enhancedAnalysis?.enhancedScore || r.summary.score\<close>\<close>
  "scoreOf r = js_or_undef (Option.bind (enhancedAnalysis r) enhancedScore) (score (summary r))"

definition affectedNodes :: "page_violation \<Rightarrow> int" where
  \<comment> \<open>\<open>violation.nodeCount || violation.nodes?.length || 1\<close>\<close>
  "affectedNodes v =
     js_or_undef (nodeCount v) (js_or_undef (map_option (\<lambda>ns. int (length ns)) (vNodes v)) 1)"

definition countViolation ::
  "page_violation \<Rightarrow> (string \<times> histogram_value) list \<Rightarrow> (string \<times> histogram_value) list"
where
  \<comment> \<open>\<open>if (violationsBySeverity[violation.impact] !== undefined) violationsBySeverity[violation.impact] += ...\<close>\<close>
  "countViolation v bySeverity =
     (case map_of bySeverity (vImpact v) of
        Some (Count n) \<Rightarrow>
          AList.update (vImpact v) (Count (js_add n (of_int (affectedNodes v)))) bySeverity
      | Some Text \<Rightarrow> bySeverity
      | None \<Rightarrow>
          if vImpact v = ''__proto__'' then bySeverity
          else if vImpact v \<in> set objectPrototypeKeys then bySeverity @ [(vImpact v, Text)]
          else bySeverity)"

definition groupBySeverity :: "scan_result list \<Rightarrow> (string \<times> histogram_value) list" where
  \<comment> \<open>the two nested \<open>forEach\<close> loops over the completed scans and their violations\<close>
  "groupBySeverity completed =
     fold (\<lambda>scan bySeverity. fold countViolation (scanViolations scan) bySeverity) completed
       [(''critical'', Count 0), (''serious'', Count 0), (''moderate'', Count 0),
        (''minor'', Count 0)]"

fun dedupLoop ::
  "remediation_issue list \<Rightarrow> remediation_issue list \<Rightarrow> string set \<Rightarrow> remediation_issue list"
where
  \<comment> \<open>the \<open>forEach\<close> of \<open>deduplicateIssues\<close>, with its \<open>unique\<close> array and \<open>seen\<close> set\<close>
  "dedupLoop [] unique seen = unique"
| "dedupLoop (issue # rest) unique seen =
     (let key = title issue @ description issue in
      if key \<notin> seen then dedupLoop rest (unique @ [issue]) (insert key seen)
      else dedupLoop rest unique seen)"

definition deduplicateIssues :: "remediation_issue list \<Rightarrow> remediation_issue list" where
  "deduplicateIssues issues = take 5 (dedupLoop issues [] {})"

definition collectPlan :: "scan_result \<Rightarrow> aggregated_plan \<Rightarrow> aggregated_plan" where
  \<comment> \<open>the body of the \<open>forEach\<close> of \<open>aggregateRemediationPlan\<close>, for a scan with an analysis\<close>
  "collectPlan scan plan =
     (let rp = Option.bind (enhancedAnalysis scan) remediationPlan;
          plan1 = (case Option.bind rp estimatedEffort of
                     None \<Rightarrow> plan
                   | Some effort \<Rightarrow>
                       plan\<lparr>totalQuickFixes :=
                              js_add (totalQuickFixes plan) (of_int (js_or_undef (quickFixes effort) 0)),
                            totalMediumFixes :=
                              js_add (totalMediumFixes plan) (of_int (js_or_undef (mediumFixes effort) 0)),
                            totalComplexFixes :=
                              js_add (totalComplexFixes plan)
                                (of_int (js_or_undef (complexFixes effort) 0))\<rparr>);
          issues = (case Option.bind rp priority1 of None \<Rightarrow> [] | Some ps \<Rightarrow> ps)
      in plan1\<lparr>topPriority1Issues := topPriority1Issues plan1 @ issues\<rparr>)"

definition aggregateRemediationPlan :: "scan_result list \<Rightarrow> aggregated_plan option" where
  "aggregateRemediationPlan completed =
     (let scansWithAnalysis = filter (\<lambda>scan. enhancedAnalysis scan \<noteq> None) completed in
      if length scansWithAnalysis = 0 then None
      else
        let plan = fold collectPlan scansWithAnalysis
                     \<lparr>totalQuickFixes = 0, totalMediumFixes = 0, totalComplexFixes = 0,
                      topPriority1Issues = [], estimatedTotalHours = 0\<rparr>;
            hours = Math_round
                      (js_add (js_add (js_mul (totalQuickFixes plan) (1 / 2))
                                      (js_mul (totalMediumFixes plan) 4))
                              (js_mul (totalComplexFixes plan) 16))
        in Some (plan\<lparr>estimatedTotalHours := hours,
                       topPriority1Issues := deduplicateIssues (topPriority1Issues plan)\<rparr>))"

definition pageResult :: "scan_result \<Rightarrow> page_result" where
  \<comment> \<open>one element of \<open>pageResults\<close>\<close>
  "pageResult r =
     \<lparr>pageUrl = url r,
      pageStatus = status r,
      pageScore = js_or (js_or_undef (Option.bind (enhancedAnalysis r) enhancedScore)
                          (score (summary r))) 0,
      basicScore = js_or (score (summary r)) 0,
      pageViolationCount = js_or (violationCount (summary r)) 0,
      priority1Fixes =
        map_option
          (\<lambda>ea. js_or_undef
             (map_option (\<lambda>ps. int (length ps)) (Option.bind (remediationPlan ea) priority1)) 0)
          (enhancedAnalysis r)\<rparr>"

definition aggregateResults :: "scan_result list \<Rightarrow> aggregate_report" where
  "aggregateResults scanResults =
     (let completed = filter (\<lambda>r. status r = ''completed'') scanResults;
          failed = filter (\<lambda>r. status r = ''failed'') scanResults;
          totalScore = foldl (\<lambda>sum r. js_add sum (of_int (scoreOf r))) 0 completed;
          averageScore =
            (if length completed > 0
             then Math_round (js_div totalScore (of_nat (length completed)))
             else 0)
      in \<lparr>totalScans = length scanResults,
          completedScans = length completed,
          failedScans = length failed,
          overallScore = averageScore,
          totalViolations =
            foldl (\<lambda>sum r. js_add sum (of_int (violationCount (summary r)))) 0 completed,
          totalPasses = foldl (\<lambda>sum r. js_add sum (of_int (passCount (summary r)))) 0 completed,
          violationsBySeverity = groupBySeverity completed,
          hasEnhancedAnalysis = list_ex (\<lambda>r. enhancedAnalysis r \<noteq> None) completed,
          aggregatedRemediationPlan = aggregateRemediationPlan completed,
          pageResults = map pageResult scanResults\<rparr>)"

text \<open>Example inputs.\<close>

definition page :: "string \<Rightarrow> string \<Rightarrow> int \<Rightarrow> scan_result" where
  \<comment> \<open>a result without violations and without enhanced analysis\<close>
  "page u st sc =
     \<lparr>url = u, status = st, summary = \<lparr>score = sc, violationCount = 0, passCount = 0\<rparr>,
      scanViolations = [], enhancedAnalysis = None\<rparr>"

definition three_pages :: "scan_result list" where
  "three_pages = [page ''/'' ''completed'' 80, page ''/a'' ''failed'' 0, page ''/b'' ''completed'' 60]"

definition enhanced_page :: scan_result where
  \<comment> \<open>basic score 50, enhanced score 90\<close>
  "enhanced_page =
     (page ''/'' ''completed'' 50)
       \<lparr>enhancedAnalysis := Some \<lparr>enhancedScore = Some 90, remediationPlan = None\<rparr>\<rparr>"

definition mixed_pages :: "scan_result list" where
  \<comment> \<open>a page with enhanced score 90 (basic score 50), a failed page, a page with score 80\<close>
  "mixed_pages = [enhanced_page, page ''/a'' ''failed'' 0, page ''/b'' ''completed'' 80]"

text \<open>
  The overall score as the specification states it: the mean of the completed pages' scores,
  rounded to the nearest integer; for comparison with \<open>aggregateResults\<close>.
\<close>

definition overallScore_spec :: "scan_result list \<Rightarrow> int" where
  "overallScore_spec rs =
     (let cs = filter (\<lambda>r. status r = ''completed'') rs in
      if cs = [] then 0
      else \<lfloor>(of_int (\<Sum>r\<leftarrow>cs. score (summary r)) :: rat) / of_int (int (length cs)) + 1 / 2\<rfloor>)"






text \<open>
  The histogram with given counts, and the affected nodes of the violations of one impact in
  a list of violations.
\<close>

definition histogramOf ::
  "int \<Rightarrow> int \<Rightarrow> int \<Rightarrow> int \<Rightarrow> (string \<times> histogram_value) list"
where
  "histogramOf a b c d =
     [(''critical'', Count (of_int a)), (''serious'', Count (of_int b)),
      (''moderate'', Count (of_int c)), (''minor'', Count (of_int d))]"

definition nodesOfImpact :: "string \<Rightarrow> page_violation list \<Rightarrow> int" where
  "nodesOfImpact k vs = (\<Sum>v\<leftarrow>filter (\<lambda>v. vImpact v = k) vs. affectedNodes v)"


definition constructor_page :: scan_result where
  \<comment> \<open>a completed page whose only violation has the impact \<open>constructor\<close>\<close>
  "constructor_page =
     (page ''/'' ''completed'' 90)
       \<lparr>scanViolations := [\<lparr>vImpact = ''constructor'', nodeCount = Some 3, vNodes = None\<rparr>]\<rparr>"

definition contribution :: "scan_result \<Rightarrow> int" where
  \<comment> \<open>what a page contributes to the average: its enhanced score when it carries an
      enhanced analysis with a non-zero enhanced score, its summary score otherwise\<close>
  "contribution r =
     (case enhancedAnalysis r of
        None \<Rightarrow> score (summary r)
      | Some ea \<Rightarrow>
          (case enhancedScore ea of
             None \<Rightarrow> score (summary r)
           | Some e \<Rightarrow> if e = 0 then score (summary r) else e))"

definition issue_ab_c :: remediation_issue where
  "issue_ab_c = \<lparr>title = ''ab'', description = ''c'', effortClass = ''quick''\<rparr>"

definition issue_a_bc :: remediation_issue where
  "issue_a_bc = \<lparr>title = ''a'', description = ''bc'', effortClass = ''quick''\<rparr>"

definition page_with_issue :: "string \<Rightarrow> remediation_issue \<Rightarrow> scan_result" where
  "page_with_issue u i =
     (page u ''completed'' 50)
       \<lparr>enhancedAnalysis :=
          Some \<lparr>enhancedScore = None,
                remediationPlan = Some \<lparr>estimatedEffort = None, priority1 = Some [i]\<rparr>\<rparr>\<rparr>"



section \<open>Page discovery (page-discovery.js)\<close>

text \<open>
  JavaScript strings are modelled as \<open>string\<close>: a character stands for a code unit, ordered by
  its code as the default \<open>sort\<close> orders strings (code units above 255 are not represented).
  What the class obtains from the network and from its libraries is a parameter of the model,
  the \<open>world\<close>: \<open>new URL(s)\<close> (\<open>None\<close> when it throws), the XML parser applied to a sitemap
  (\<open>None\<close> when it throws), \<open>fetch\<close> (\<open>None\<close> when it throws), and the links that
  \<open>extractLinksFromPage\<close> returns for a page URL (it catches every error and then returns the
  empty list).
\<close>

datatype error = Error string

record url =
  hostname :: string
  pathname :: string

record sitemap_entry =
  loc :: "string option"

record sitemap_xml =
  urlset_url :: "sitemap_entry list option"
  sitemapindex_sitemap :: "sitemap_entry list option"

record response =
  ok :: bool
  responseText :: string

record world =
  newURL :: "string \<Rightarrow> url option"
  parseStringPromise :: "string \<Rightarrow> sitemap_xml option"
  fetch :: "string \<Rightarrow> response option"
  extractLinksFromPage :: "string \<Rightarrow> string list"

record config =
  configMaxPages :: "int option"
  configTimeout :: "int option"

record PageDiscovery =
  maxPages :: int
  timeout :: int

datatype paths_input = PathsString string | PathsArray "string option list"

record options =
  optionsMaxPages :: "int option"
  startPaths :: "string list option"
  paths :: "paths_input option"

definition constructor :: "config \<Rightarrow> PageDiscovery" where
  "constructor cfg =
     \<lparr>maxPages = js_or_undef (configMaxPages cfg) 10,
      timeout = js_or_undef (configTimeout cfg) 10000\<rparr>"

subsection \<open>String operations\<close>

definition startsWith :: "string \<Rightarrow> string \<Rightarrow> bool" where
  "startsWith s p = (take (length p) s = p)"

definition endsWith :: "string \<Rightarrow> string \<Rightarrow> bool" where
  "endsWith s p = (length p \<le> length s \<and> drop (length s - length p) s = p)"

definition isWhiteSpace :: "char \<Rightarrow> bool" where
  \<comment> \<open>the white space and line terminators that \<open>trim\<close> removes, among the code units below 256\<close>
  "isWhiteSpace c = (of_char c \<in> {9, 10, 11, 12, 13, 32, 160 :: nat})"

definition trim :: "string \<Rightarrow> string" where
  "trim s = rev (dropWhile isWhiteSpace (rev (dropWhile isWhiteSpace s)))"

fun splitOn :: "char \<Rightarrow> string \<Rightarrow> string list" where
  \<comment> \<open>\<open>s.split(c)\<close> for a one-character separator\<close>
  "splitOn c [] = [[]]"
| "splitOn c (x # xs) =
     (if x = c then [] # splitOn c xs
      else (case splitOn c xs of [] \<Rightarrow> [[x]] | w # ws \<Rightarrow> (x # w) # ws))"

definition toLowerCase :: "string \<Rightarrow> string" where
  "toLowerCase s =
     map (\<lambda>c. let n = (of_char c :: nat) in
               if (65 \<le> n \<and> n \<le> 90) \<or> (192 \<le> n \<and> n \<le> 222 \<and> n \<noteq> 215)
               then char_of (n + 32) else c) s"

fun indexOf :: "'a list \<Rightarrow> 'a \<Rightarrow> int" where
  "indexOf [] x = - 1"
| "indexOf (y # ys) x =
     (if y = x then 0 else (let i = indexOf ys x in if i < 0 then - 1 else i + 1))"

definition slice0 :: "'a list \<Rightarrow> int \<Rightarrow> 'a list" where
  \<comment> \<open>\<open>xs.slice(0, n)\<close>: a negative \<open>n\<close> counts from the end\<close>
  "slice0 xs n = (if 0 \<le> n then take (nat n) xs else take (length xs - nat (- n)) xs)"

subsection \<open>Link Normalizer: \<open>normalizePaths\<close>\<close>

definition normalizePath :: "string \<Rightarrow> string" where
  \<comment> \<open>the body of the loop, for a non-empty string \<open>path\<close>\<close>
  "normalizePath path =
     (let normalizedPath = (if startsWith path ''/'' then path else ''/'' @ path);
          normalizedPath = (if normalizedPath \<noteq> ''/'' \<and> endsWith normalizedPath ''/''
                            then butlast normalizedPath else normalizedPath)
      in takeWhile (\<lambda>c. c \<noteq> CHR ''?'' \<and> c \<noteq> CHR ''#'') normalizedPath)"

definition setAdd :: "'a list \<Rightarrow> 'a \<Rightarrow> 'a list" where
  \<comment> \<open>\<open>Set.add\<close>, the set kept as the list of its elements in insertion order\<close>
  "setAdd s x = (if x \<in> set s then s else s @ [x])"

fun normalizeLoop :: "string list \<Rightarrow> string list \<Rightarrow> string list" where
  "normalizeLoop [] normalized = normalized"
| "normalizeLoop (path # rest) normalized =
     (if path = [] then normalizeLoop rest normalized
      else normalizeLoop rest (setAdd normalized (normalizePath path)))"

definition normalizePaths :: "string list \<Rightarrow> string list" where
  "normalizePaths ps =
     (let result = sort (normalizeLoop ps []);
          rootIndex = indexOf result ''/''
      in if 0 < rootIndex
         then ''/'' # (take (nat rootIndex) result @ drop (nat rootIndex + 1) result)
         else result)"

definition isPath :: "string \<Rightarrow> bool" where
  \<comment> \<open>the invariant of a Path in the specification's data model\<close>
  "isPath p = (startsWith p ''/'' \<and> (p = ''/'' \<or> \<not> endsWith p ''/'')
               \<and> CHR ''?'' \<notin> set p \<and> CHR ''#'' \<notin> set p)"

subsection \<open>Manual paths: \<open>parseManualPaths\<close>\<close>

definition parseManualPaths :: "paths_input \<Rightarrow> string list" where
  "parseManualPaths pathsInput =
     (case pathsInput of
        PathsString s \<Rightarrow>
          filter (\<lambda>path. path \<noteq> [] \<and> \<not> startsWith path ''#'') (map trim (splitOn CHR 0x0A s))
      | PathsArray a \<Rightarrow> concat (map (\<lambda>x. case x of None \<Rightarrow> [] | Some path \<Rightarrow> if path \<noteq> [] then [path] else []) a))"

subsection \<open>Crawl Frontier: \<open>discoverByCrawling\<close>\<close>

record crawl_state =
  toVisit :: "string list"
  visited :: "string set"
  discovered :: "string list"

definition enqueue :: "string set \<Rightarrow> string list \<Rightarrow> string list \<Rightarrow> string list" where
  \<comment> \<open>the loop over the links of a page: push those neither visited nor queued\<close>
  "enqueue vis links queue =
     fold (\<lambda>link q. if link \<notin> vis \<and> link \<notin> set q then q @ [link] else q) links queue"

partial_function (option) crawlLoop ::
  "world \<Rightarrow> string \<Rightarrow> int \<Rightarrow> crawl_state \<Rightarrow> crawl_state option"
where
  "crawlLoop w baseUrl limit s =
     (if toVisit s \<noteq> [] \<and> int (length (discovered s)) < limit
      then
        (let path = hd (toVisit s);
             s1 = s\<lparr>toVisit := tl (toVisit s)\<rparr>
         in if path \<in> visited s1 then crawlLoop w baseUrl limit s1
            else
              (let s2 = s1\<lparr>visited := insert path (visited s1),
                           discovered := discovered s1 @ [path]\<rparr>;
                   links = extractLinksFromPage w (baseUrl @ path)
               in crawlLoop w baseUrl limit
                    (s2\<lparr>toVisit := enqueue (visited s2) links (toVisit s2)\<rparr>)))
      else Some s)"

definition crawlLimit :: "PageDiscovery \<Rightarrow> options \<Rightarrow> int" where
  \<comment> \<open>\<open>Math.min(options.maxPages || this.maxPages, 50)\<close>\<close>
  "crawlLimit this opts = min (js_or_undef (optionsMaxPages opts) (maxPages this)) 50"

definition discoverByCrawling ::
  "PageDiscovery \<Rightarrow> world \<Rightarrow> string \<Rightarrow> options \<Rightarrow> (error + string list) option"
where
  \<comment> \<open>\<open>None\<close>: the loop does not end; \<open>Inl\<close>: \<open>new URL(baseUrl)\<close> throws\<close>
  "discoverByCrawling this w baseUrl opts =
     (let limit = crawlLimit this opts;
          seeds = (case startPaths opts of None \<Rightarrow> [''/''] | Some ps \<Rightarrow> ps)
      in case newURL w baseUrl of
           None \<Rightarrow> Some (Inl (Error ''Invalid URL''))
         | Some baseUrlObj \<Rightarrow>
             map_option (\<lambda>s. Inr (discovered s))
               (crawlLoop w baseUrl limit \<lparr>toVisit = seeds, visited = {}, discovered = []\<rparr>))"

subsection \<open>Sitemap Resolver: \<open>parseSitemap\<close> and \<open>discoverFromSitemap\<close>\<close>

fun urlsetPages :: "world \<Rightarrow> url \<Rightarrow> sitemap_entry list \<Rightarrow> string list option" where
  \<comment> \<open>the loop over \<open>result.urlset.url\<close>; \<open>None\<close> when \<open>new URL\<close> throws on an entry\<close>
  "urlsetPages w baseUrlObj [] = Some []"
| "urlsetPages w baseUrlObj (urlEntry # rest) =
     (case loc urlEntry of
        None \<Rightarrow> urlsetPages w baseUrlObj rest
      | Some l \<Rightarrow>
          if l = [] then urlsetPages w baseUrlObj rest
          else
            (case newURL w l of
               None \<Rightarrow> None
             | Some u \<Rightarrow>
                 map_option
                   (\<lambda>pages. if hostname u = hostname baseUrlObj then pathname u # pages else pages)
                   (urlsetPages w baseUrlObj rest)))"

fun childSitemaps ::
  "(string \<Rightarrow> (error + string list) option) \<Rightarrow> world \<Rightarrow> sitemap_entry list \<Rightarrow> string list option"
where
  \<comment> \<open>the loop over \<open>result.sitemapindex.sitemap\<close>; \<open>parse\<close> is the recursive call of
      \<open>parseSitemap\<close>, whose errors (and those of \<open>fetch\<close>) are caught per child\<close>
  "childSitemaps parse w [] = Some []"
| "childSitemaps parse w (sitemapEntry # rest) =
     (case loc sitemapEntry of
        None \<Rightarrow> childSitemaps parse w rest
      | Some childSitemapUrl \<Rightarrow>
          if childSitemapUrl = [] then childSitemaps parse w rest
          else
            (case fetch w childSitemapUrl of
               None \<Rightarrow> childSitemaps parse w rest
             | Some r \<Rightarrow>
                 if ok r then
                   (case parse (responseText r) of
                      None \<Rightarrow> None
                    | Some (Inl e) \<Rightarrow> childSitemaps parse w rest
                    | Some (Inr childPages) \<Rightarrow>
                        map_option (\<lambda>pages. childPages @ pages) (childSitemaps parse w rest))
                 else childSitemaps parse w rest))"

fun parseSitemap :: "nat \<Rightarrow> world \<Rightarrow> string \<Rightarrow> string \<Rightarrow> (error + string list) option" where
  \<comment> \<open>the first argument bounds the depth of the recursion: \<open>None\<close> when it is exceeded\<close>
  "parseSitemap 0 w sitemapXml baseUrl = None"
| "parseSitemap (Suc depth) w sitemapXml baseUrl =
     (case parseStringPromise w sitemapXml of
        None \<Rightarrow> Some (Inl (Error ''Failed to parse sitemap''))
      | Some result \<Rightarrow>
          (case newURL w baseUrl of
             None \<Rightarrow> Some (Inl (Error ''Failed to parse sitemap''))
           | Some baseUrlObj \<Rightarrow>
               (case urlsetPages w baseUrlObj
                       (case urlset_url result of None \<Rightarrow> [] | Some es \<Rightarrow> es) of
                  None \<Rightarrow> Some (Inl (Error ''Failed to parse sitemap''))
                | Some pages \<Rightarrow>
                    map_option (\<lambda>childPages. Inr (pages @ childPages))
                      (childSitemaps (\<lambda>childSitemapXml. parseSitemap depth w childSitemapXml baseUrl) w
                         (case sitemapindex_sitemap result of None \<Rightarrow> [] | Some es \<Rightarrow> es)))))"

fun trySitemaps :: "nat \<Rightarrow> world \<Rightarrow> string \<Rightarrow> string list \<Rightarrow> (error + string list) option" where
  \<comment> \<open>the loop of \<open>discoverFromSitemap\<close> over the candidate locations\<close>
  "trySitemaps depth w baseUrl [] = Some (Inl (Error ''No valid sitemap found''))"
| "trySitemaps depth w baseUrl (sitemapPath # rest) =
     (case fetch w (baseUrl @ sitemapPath) of
        None \<Rightarrow> trySitemaps depth w baseUrl rest
      | Some r \<Rightarrow>
          if \<not> ok r then trySitemaps depth w baseUrl rest
          else
            (case parseSitemap depth w (responseText r) baseUrl of
               None \<Rightarrow> None
             | Some (Inl e) \<Rightarrow> trySitemaps depth w baseUrl rest
             | Some (Inr pages) \<Rightarrow>
                 if length pages > 0 then Some (Inr pages) else trySitemaps depth w baseUrl rest))"

definition discoverFromSitemap :: "nat \<Rightarrow> world \<Rightarrow> string \<Rightarrow> (error + string list) option" where
  "discoverFromSitemap depth w baseUrl =
     trySitemaps depth w baseUrl
       [''/sitemap.xml'', ''/sitemap_index.xml'', ''/sitemap/sitemap.xml'', ''/sitemaps/sitemap.xml'']"

subsection \<open>Page Discovery Coordinator: \<open>discoverPages\<close>\<close>

definition strategyPages ::
  "nat \<Rightarrow> PageDiscovery \<Rightarrow> world \<Rightarrow> string \<Rightarrow> string \<Rightarrow> options \<Rightarrow> (error + string list) option"
where
  \<comment> \<open>the \<open>switch\<close> on the strategy\<close>
  "strategyPages depth this w baseUrl strategy opts =
     (let s = toLowerCase strategy in
      if s = ''single'' then Some (Inr [''/''])
      else if s = ''sitemap'' then discoverFromSitemap depth w baseUrl
      else if s = ''crawl'' then discoverByCrawling this w baseUrl opts
      else if s = ''paths'' then
        Some (Inr (parseManualPaths
          (case paths opts of
             None \<Rightarrow> PathsArray []
           | Some (PathsString p) \<Rightarrow> if p = [] then PathsArray [] else PathsString p
           | Some (PathsArray a) \<Rightarrow> PathsArray a)))
      else Some (Inr [''/'']))"

definition discoverPages ::
  "nat \<Rightarrow> PageDiscovery \<Rightarrow> world \<Rightarrow> string \<Rightarrow> string \<Rightarrow> options \<Rightarrow> string list option"
where
  \<comment> \<open>\<open>None\<close>: the call does not return; an error of the strategy is caught and gives \<open>['/']\<close>\<close>
  "discoverPages depth this w baseUrl strategy opts =
     (case strategyPages depth this w baseUrl strategy opts of
        None \<Rightarrow> None
      | Some (Inl e) \<Rightarrow> Some [''/'']
      | Some (Inr found) \<Rightarrow>
          (let pages = normalizePaths found in
           Some (if int (length pages) > maxPages this then slice0 pages (maxPages this) else pages)))"


text \<open>Example worlds.\<close>

definition small_site :: world where
  \<comment> \<open>three pages linking in a cycle: / to /a, /a to / and /c, /c to /\<close>
  "small_site =
     \<lparr>newURL = (\<lambda>s. Some \<lparr>hostname = ''h'', pathname = s\<rparr>),
      parseStringPromise = (\<lambda>s. None),
      fetch = (\<lambda>s. None),
      extractLinksFromPage =
        (\<lambda>p. if p = ''http://h/'' then [''/a'']
             else if p = ''http://h/a'' then [''/'', ''/c'']
             else if p = ''http://h/c'' then [''/''] else [])\<rparr>"


text \<open>
  The sitemap graph: the documents that a sitemap document references as child sitemaps and
  that \<open>parseSitemap\<close> fetches and parses, and the nesting of a document, bounded by \<open>depth\<close>
  when every chain of child references starting at the document has fewer than \<open>depth\<close>
  documents.
\<close>

definition entryChild :: "world \<Rightarrow> sitemap_entry \<Rightarrow> string option" where
  \<comment> \<open>the text of the child sitemap that an entry of a sitemap index leads to, if it is fetched\<close>
  "entryChild w e =
     (case loc e of
        None \<Rightarrow> None
      | Some u \<Rightarrow>
          if u = [] then None
          else (case fetch w u of
                  None \<Rightarrow> None
                | Some r \<Rightarrow> if ok r then Some (responseText r) else None))"

definition fetchedChildren :: "world \<Rightarrow> sitemap_entry list \<Rightarrow> string list" where
  "fetchedChildren w es = List.map_filter (entryChild w) es"

definition documentParts ::
  "world \<Rightarrow> string \<Rightarrow> string \<Rightarrow> (string list \<times> sitemap_entry list) option"
where
  \<comment> \<open>the pages of a document's URL set and the entries of its sitemap index, when the
      document, the base URL and the URLs of the URL set parse\<close>
  "documentParts w sitemapXml baseUrl =
     (case parseStringPromise w sitemapXml of
        None \<Rightarrow> None
      | Some result \<Rightarrow>
          (case newURL w baseUrl of
             None \<Rightarrow> None
           | Some baseUrlObj \<Rightarrow>
               (case urlsetPages w baseUrlObj
                       (case urlset_url result of None \<Rightarrow> [] | Some es \<Rightarrow> es) of
                  None \<Rightarrow> None
                | Some pages \<Rightarrow>
                    Some (pages, case sitemapindex_sitemap result of None \<Rightarrow> [] | Some es \<Rightarrow> es))))"

definition childDocuments :: "world \<Rightarrow> string \<Rightarrow> string \<Rightarrow> string list" where
  "childDocuments w sitemapXml baseUrl =
     (case documentParts w sitemapXml baseUrl of
        None \<Rightarrow> []
      | Some (pages, es) \<Rightarrow> fetchedChildren w es)"

fun nestingWithin :: "nat \<Rightarrow> world \<Rightarrow> string \<Rightarrow> string \<Rightarrow> bool" where
  "nestingWithin 0 w sitemapXml baseUrl = False"
| "nestingWithin (Suc depth) w sitemapXml baseUrl =
     (\<forall>child \<in> set (childDocuments w sitemapXml baseUrl). nestingWithin depth w child baseUrl)"

definition self_index :: world where
  \<comment> \<open>every sitemap URL serves a sitemap index that references \<open>/sitemap.xml\<close> again\<close>
  "self_index =
     \<lparr>newURL = (\<lambda>s. Some \<lparr>hostname = ''h'', pathname = ''/''\<rparr>),
      parseStringPromise =
        (\<lambda>s. Some \<lparr>urlset_url = None,
                     sitemapindex_sitemap = Some [\<lparr>loc = Some ''http://h/sitemap.xml''\<rparr>]\<rparr>),
      fetch = (\<lambda>s. Some \<lparr>ok = True, responseText = ''<sitemapindex>''\<rparr>),
      extractLinksFromPage = (\<lambda>p. [])\<rparr>"

definition nested_indexes :: world where
  \<comment> \<open>a document \<open>i\<dots>iu\<close> is a sitemap index whose child is the document with one \<open>i\<close> less;
      the document \<open>u\<close> is a URL set with one page\<close>
  "nested_indexes =
     \<lparr>newURL = (\<lambda>s. Some \<lparr>hostname = ''h'', pathname = ''/p''\<rparr>),
      parseStringPromise =
        (\<lambda>s. case s of
                [] \<Rightarrow> None
              | c # rest \<Rightarrow>
                  if c = CHR ''i''
                  then Some \<lparr>urlset_url = None, sitemapindex_sitemap = Some [\<lparr>loc = Some rest\<rparr>]\<rparr>
                  else Some \<lparr>urlset_url = Some [\<lparr>loc = Some ''http://h/p''\<rparr>],
                            sitemapindex_sitemap = None\<rparr>),
      fetch = (\<lambda>u. Some \<lparr>ok = True, responseText = u\<rparr>),
      extractLinksFromPage = (\<lambda>p. [])\<rparr>"

definition nested_doc :: "nat \<Rightarrow> string" where
  "nested_doc n = replicate n CHR ''i'' @ ''u''"


text \<open>Example inputs of page discovery.\<close>

definition default_discovery :: PageDiscovery where
  \<comment> \<open>\<open>new PageDiscovery()\<close>: the cap is the default 10\<close>
  "default_discovery = constructor \<lparr>configMaxPages = None, configTimeout = None\<rparr>"

definition one_page_discovery :: PageDiscovery where
  \<comment> \<open>\<open>new PageDiscovery({maxPages: 1})\<close>\<close>
  "one_page_discovery = constructor \<lparr>configMaxPages = Some 1, configTimeout = None\<rparr>"

definition action_discovery :: "int \<Rightarrow> PageDiscovery" where
  \<comment> \<open>the object of the action (README.md):
      \<open>new PageDiscovery({maxPages: parseInt(this.inputs.maxPages), timeout: 10000})\<close>\<close>
  "action_discovery maxPagesInput =
     constructor \<lparr>configMaxPages = Some maxPagesInput, configTimeout = Some 10000\<rparr>"

definition two_paths :: "int option \<Rightarrow> options" where
  \<comment> \<open>the options \<open>{maxPages: n, paths: ['/a', '/b']}\<close>\<close>
  "two_paths n =
     \<lparr>optionsMaxPages = n, startPaths = None, paths = Some (PathsArray [Some ''/a'', Some ''/b''])\<rparr>"


text \<open>The last step of \<open>normalizePaths\<close>, which moves the root path to the front.\<close>

definition rootFirst :: "string list \<Rightarrow> string list" where
  "rootFirst result =
     (let rootIndex = indexOf result ''/''
      in if 0 < rootIndex
         then ''/'' # (take (nat rootIndex) result @ drop (nat rootIndex + 1) result)
         else result)"


text \<open>
  The first occurrences of a list of issues under the key of \<open>deduplicateIssues\<close>, the
  concatenation of title and description: each issue is kept unless an earlier issue has the
  same key.
\<close>

definition issueKey :: "remediation_issue \<Rightarrow> string" where
  "issueKey issue = title issue @ description issue"

function firstOccurrences :: "remediation_issue list \<Rightarrow> remediation_issue list" where
  "firstOccurrences [] = []"
| "firstOccurrences (issue # rest) =
     issue # firstOccurrences (filter (\<lambda>other. issueKey other \<noteq> issueKey issue) rest)"
  by pat_completeness auto
termination
  by (relation "measure length") (simp_all add: le_imp_less_Suc)

definition manual_example :: options where
  \<comment> \<open>the options \<open>{paths: "/\n/about\n\n# comment\n/contact"}\<close>\<close>
  "manual_example =
     \<lparr>optionsMaxPages = None, startPaths = None,
      paths = Some (PathsString (''/'' @ [CHR 0x0A] @ ''/about'' @ [CHR 0x0A, CHR 0x0A]
                @ ''# comment'' @ [CHR 0x0A] @ ''/contact''))\<rparr>"

definition two_children :: world where
  \<comment> \<open>a sitemap index at \<open>/sitemap.xml\<close> with two child sitemaps of three and four URLs\<close>
  "two_children =
     \<lparr>newURL = (\<lambda>s. if take 8 s = ''http://h'' then Some \<lparr>hostname = ''h'', pathname = drop 8 s\<rparr>
                     else None),
      parseStringPromise =
        (\<lambda>s. if s = ''index''
              then Some \<lparr>urlset_url = None,
                         sitemapindex_sitemap =
                           Some [\<lparr>loc = Some ''http://h/s1.xml''\<rparr>, \<lparr>loc = Some ''http://h/s2.xml''\<rparr>]\<rparr>
              else if s = ''first''
              then Some \<lparr>urlset_url =
                           Some (map (\<lambda>p. \<lparr>loc = Some (''http://h'' @ p)\<rparr>) [''/a'', ''/b'', ''/c'']),
                         sitemapindex_sitemap = None\<rparr>
              else if s = ''second''
              then Some \<lparr>urlset_url =
                           Some (map (\<lambda>p. \<lparr>loc = Some (''http://h'' @ p)\<rparr>)
                                   [''/d'', ''/e'', ''/f'', ''/g'']),
                         sitemapindex_sitemap = None\<rparr>
              else None),
      fetch =
        (\<lambda>u. if u = ''http://h/sitemap.xml'' then Some \<lparr>ok = True, responseText = ''index''\<rparr>
              else if u = ''http://h/s1.xml'' then Some \<lparr>ok = True, responseText = ''first''\<rparr>
              else if u = ''http://h/s2.xml'' then Some \<lparr>ok = True, responseText = ''second''\<rparr>
              else Some \<lparr>ok = False, responseText = ''''\<rparr>),
      extractLinksFromPage = (\<lambda>p. [])\<rparr>"


section \<open>Properties of the number model\<close>

lemma expo_bounds:
  assumes "x \<noteq> 0"
  shows "2 powi (expo x) \<le> \<bar>x\<bar> \<and> \<bar>x\<bar> < 2 powi (expo x + 1)"
proof (cases "1 \<le> \<bar>x\<bar>")
  case True
  define n where "n = \<lfloor>\<bar>x\<bar>\<rfloor>"
  have n1: "1 \<le> n" using True by (simp add: n_def le_floor_iff)
  then have n0: "0 < n" by simp
  have b1: "1 \<le> bitlen n" using n0 by (simp add: bitlen_alt_def)
  have e: "expo x = bitlen n - 1" using True by (simp add: expo_def n_def)
  from bitlen_bounds [OF n0] have lo: "2 ^ nat (bitlen n - 1) \<le> n" and hi: "n < 2 ^ nat (bitlen n)"
    by simp_all
  have "(2::rat) powi (bitlen n - 1) = of_int (2 ^ nat (bitlen n - 1))"
    using b1 by (simp add: power_int_def)
  also have "\<dots> \<le> of_int n" using lo by (simp only: of_int_le_iff)
  also have "\<dots> \<le> \<bar>x\<bar>" by (simp add: n_def)
  finally have A: "2 powi (expo x) \<le> \<bar>x\<bar>" by (simp add: e)
  have "\<bar>x\<bar> < of_int (n + 1)" unfolding n_def by simp linarith
  also have "\<dots> \<le> of_int (2 ^ nat (bitlen n))" using hi by (simp only: of_int_le_iff)
  also have "\<dots> = (2::rat) powi (bitlen n)" using b1 by (simp add: power_int_def)
  finally have B: "\<bar>x\<bar> < 2 powi (expo x + 1)" by (simp add: e)
  from A B show ?thesis ..
next
  case False
  define y where "y = 1 / \<bar>x\<bar>"
  have x0: "0 < \<bar>x\<bar>" using assms by simp
  have y1: "1 < y" using False x0 by (simp add: y_def)
  define m where "m = \<lceil>y\<rceil> - 1"
  have my: "of_int m < y" by (simp add: m_def) linarith
  have ym: "y \<le> of_int (m + 1)" by (simp add: m_def)
  have m1: "1 \<le> m" using y1 by (simp add: m_def)
  then have m0: "0 < m" by simp
  have b1: "1 \<le> bitlen m" using m0 by (simp add: bitlen_alt_def)
  have e: "expo x = - bitlen m" using False by (simp add: expo_def m_def y_def)
  from bitlen_bounds [OF m0] have lo: "2 ^ nat (bitlen m - 1) \<le> m" and hi: "m < 2 ^ nat (bitlen m)"
    by simp_all
  have "y \<le> of_int (m + 1)" by (rule ym)
  also have "\<dots> \<le> of_int (2 ^ nat (bitlen m))" using hi by (simp only: of_int_le_iff)
  finally have yhi: "y \<le> 2 ^ nat (bitlen m)" by simp
  have "(2::rat) ^ nat (bitlen m - 1) = of_int (2 ^ nat (bitlen m - 1))" by simp
  also have "\<dots> \<le> of_int m" using lo by (simp only: of_int_le_iff)
  also have "\<dots> < y" by (rule my)
  finally have ylo: "2 ^ nat (bitlen m - 1) < y" .
  have xy: "\<bar>x\<bar> = 1 / y" by (simp add: y_def)
  have y0: "0 < y" using y1 by simp
  have "(2::rat) powi (- bitlen m) = 1 / 2 ^ nat (bitlen m)"
    using b1 by (simp add: power_int_def field_simps)
  also have "\<dots> \<le> 1 / y" using yhi y0 by (simp add: frac_le)
  finally have A: "2 powi (expo x) \<le> \<bar>x\<bar>" by (simp add: e xy)
  have "1 / y < 1 / 2 ^ nat (bitlen m - 1)" using ylo by (simp add: frac_less2)
  also have "\<dots> = (2::rat) powi (- bitlen m + 1)"
  proof (cases "bitlen m = 1")
    case True then show ?thesis by simp
  next
    case False
    with b1 have "- bitlen m + 1 < 0" by simp
    moreover have "nat (- (- bitlen m + 1)) = nat (bitlen m - 1)" by simp
    ultimately show ?thesis by (simp add: power_int_def field_simps)
  qed
  finally have B: "\<bar>x\<bar> < 2 powi (expo x + 1)" by (simp add: e xy)
  from A B show ?thesis ..
qed

lemma round_even_err: "\<bar>of_int (round_even y) - y\<bar> \<le> 1 / 2"
proof -
  define d where "d = y - of_int \<lfloor>y\<rfloor>"
  have d: "0 \<le> d" "d < 1" unfolding d_def by linarith+
  have y: "y = of_int \<lfloor>y\<rfloor> + d" by (simp add: d_def)
  consider "d < 1 / 2" | "1 / 2 < d" | "d = 1 / 2" by linarith
  then show ?thesis
  proof cases
    case 1
    then have "round_even y = \<lfloor>y\<rfloor>" by (simp add: round_even_def Let_def d_def)
    moreover have "\<bar>of_int \<lfloor>y\<rfloor> - y\<bar> \<le> 1 / 2" using 1 d unfolding d_def by linarith
    ultimately show ?thesis by simp
  next
    case 2
    then have "round_even y = \<lfloor>y\<rfloor> + 1" by (simp add: round_even_def Let_def d_def)
    moreover have "\<bar>of_int (\<lfloor>y\<rfloor> + 1) - y\<bar> \<le> 1 / 2" using 2 d unfolding d_def by simp
    ultimately show ?thesis by simp
  next
    case 3
    then have "round_even y = \<lfloor>y\<rfloor> \<or> round_even y = \<lfloor>y\<rfloor> + 1"
      by (simp add: round_even_def Let_def d_def)
    moreover have "\<bar>of_int \<lfloor>y\<rfloor> - y\<bar> \<le> 1 / 2" using 3 d unfolding d_def by linarith
    moreover have "\<bar>of_int (\<lfloor>y\<rfloor> + 1) - y\<bar> \<le> 1 / 2" using 3 d unfolding d_def by simp
    ultimately show ?thesis by auto
  qed
qed

lemma round_even_int: "round_even (of_int k) = k"
  by (simp add: round_even_def)


lemma fl_err: "\<bar>fl x - x\<bar> \<le> \<bar>x\<bar> / 2 ^ 53"
proof (cases "x = 0")
  case True
  then show ?thesis by (simp add: fl_def)
next
  case False
  define e where "e = expo x - 52"
  define P :: rat where "P = 2 powi e"
  define y where "y = \<bar>x\<bar> * 2 powi (- e)"
  define m where "m = round_even y"
  have P0: "0 < P" by (simp add: P_def)
  have yP: "y * P = \<bar>x\<bar>" by (simp add: y_def P_def power_int_minus)
  have flx: "fl x = sgn x * of_int m * P"
    using False by (simp add: fl_def Let_def e_def [symmetric] y_def [symmetric] m_def P_def)
  have "fl x - x = sgn x * (of_int m * P - \<bar>x\<bar>)"
    by (simp add: flx algebra_simps sgn_mult_abs abs_mult_sgn)
  then have "\<bar>fl x - x\<bar> = \<bar>of_int m * P - y * P\<bar>"
    using False by (simp add: abs_mult yP abs_sgn_eq)
  also have "\<dots> = \<bar>of_int m - y\<bar> * P"
    using P0 by (simp add: left_diff_distrib [symmetric] abs_mult)
  also have "\<dots> \<le> 1 / 2 * P"
    using round_even_err [of y] P0 by (simp add: m_def)
  finally have A: "\<bar>fl x - x\<bar> \<le> P / 2" by simp
  have "P * 2 ^ 52 = 2 powi (expo x)"
    by (simp add: P_def e_def power_int_diff)
  also have "\<dots> \<le> \<bar>x\<bar>" using expo_bounds [OF False] by simp
  finally have "P / 2 \<le> \<bar>x\<bar> / 2 ^ 53" by simp
  with A show ?thesis by linarith
qed

lemma expo_less:
  assumes "x \<noteq> 0" "\<bar>x\<bar> < 2 ^ n"
  shows "expo x < int n"
proof (rule ccontr)
  assume "\<not> expo x < int n"
  then have "int n \<le> expo x" by simp
  then have "(2::rat) powi (int n) \<le> 2 powi (expo x)"
    by (intro power_int_increasing) simp_all
  also have "\<dots> \<le> \<bar>x\<bar>" using expo_bounds [OF assms(1)] by simp
  finally show False using assms(2) by simp
qed

lemma fl_half:
  assumes "\<bar>k\<bar> < 2 ^ 53"
  shows "fl (of_int k / 2) = of_int k / 2"
proof (cases "k = 0")
  case True
  then show ?thesis by (simp add: fl_def)
next
  case False
  define x :: rat where "x = of_int k / 2"
  have x0: "x \<noteq> 0" using False by (simp add: x_def)
  have "\<bar>x\<bar> = of_int \<bar>k\<bar> / 2" by (simp add: x_def)
  also have "\<dots> < of_int (2 ^ 53) / 2" using assms by (simp only: of_int_less_iff divide_strict_right_mono zero_less_numeral)
  finally have "\<bar>x\<bar> < 2 ^ 52" by simp
  from expo_less [OF x0 this] have el: "expo x < 52" by simp
  define j where "j = nat (52 - expo x) - 1"
  have je: "- (expo x - 52) = int j + 1" using el by (simp add: j_def)
  have e2: "expo x - 52 = - (int j + 1)" using je by simp
  have sc: "(2::rat) powi (- (expo x - 52)) = 2 * 2 ^ j"
    by (simp only: je) (simp add: power_int_add)
  have sc': "(2::rat) powi (expo x - 52) = 1 / (2 * 2 ^ j)"
    by (simp only: e2 power_int_minus) (simp add: power_int_add field_simps)
  have "\<bar>x\<bar> * 2 powi (- (expo x - 52)) = of_int (\<bar>k\<bar> * 2 ^ j)"
    unfolding sc by (simp add: x_def)
  then have "round_even (\<bar>x\<bar> * 2 powi (- (expo x - 52))) = \<bar>k\<bar> * 2 ^ j"
    by (simp only: round_even_int)
  then have "fl x = sgn x * of_int (\<bar>k\<bar> * 2 ^ j) * (1 / (2 * 2 ^ j))"
    using x0 unfolding fl_def Let_def sc' by simp
  also have "\<dots> = sgn x * \<bar>x\<bar>" by (simp add: x_def)
  also have "\<dots> = x" by (simp add: sgn_mult_abs)
  finally show ?thesis by (simp add: x_def)
qed

lemma round_div_exact:
  assumes n: "0 < n" and t: "\<bar>t\<bar> < 2 ^ 52"
  shows "Math_round (js_div (of_int t) (of_int n)) = \<lfloor>(of_int t :: rat) / of_int n + 1 / 2\<rfloor>"
proof -
  define q :: rat where "q = of_int t / of_int n"
  define m where "m = \<lfloor>q + 1 / 2\<rfloor>"
  have nr: "(0::rat) < of_int n" using n by simp
  have n1: "(1::rat) \<le> of_int n" using n by simp
  have mlo: "of_int m - 1 / 2 \<le> q" and mhi: "q < of_int m + 1 / 2"
    unfolding m_def by linarith+
  have err: "\<bar>fl q - q\<bar> \<le> \<bar>q\<bar> / 2 ^ 53" by (rule fl_err)
  have "\<bar>q\<bar> = of_int \<bar>t\<bar> / of_int n" using nr by (simp add: q_def)
  also have "\<dots> < of_int (2 ^ 52) / of_int n"
    using t nr by (simp only: of_int_less_iff divide_strict_right_mono)
  finally have "\<bar>q\<bar> / 2 ^ 53 < (2 ^ 52 / of_int n) / 2 ^ 53" by (simp add: divide_strict_right_mono)
  then have qb: "\<bar>q\<bar> / 2 ^ 53 < 1 / (2 * of_int n)" by simp
  with err have err': "\<bar>fl q - q\<bar> < 1 / (2 * of_int n)" by linarith
  text \<open>upper side\<close>
  have "2 * t < (2 * m + 1) * n"
  proof -
    have "q * of_int n < (of_int m + 1 / 2) * of_int n" using mhi nr by (simp only: mult_strict_right_mono)
    then have "(of_int (2 * t) :: rat) < of_int ((2 * m + 1) * n)" using nr by (simp add: q_def algebra_simps)
    then show ?thesis by (simp only: of_int_less_iff)
  qed
  then have "2 * t + 1 \<le> (2 * m + 1) * n" by simp
  then have "(of_int (2 * t + 1) :: rat) \<le> of_int ((2 * m + 1) * n)" by (simp only: of_int_le_iff)
  then have "q + 1 / (2 * of_int n) \<le> of_int m + 1 / 2" using nr by (simp add: q_def field_simps)
  with err' have up: "fl q < of_int m + 1 / 2" by linarith
  text \<open>lower side\<close>
  have lo: "of_int m - 1 / 2 \<le> fl q"
  proof (cases "q = of_int m - 1 / 2")
    case True
    then have qk: "q = of_int (2 * m - 1) / 2" by (simp add: field_simps)
    have "\<bar>q\<bar> < 2 ^ 52"
    proof -
      have "\<bar>q\<bar> = of_int \<bar>t\<bar> / of_int n" using nr by (simp add: q_def)
      also have "\<dots> \<le> of_int \<bar>t\<bar> / 1"
        using n1 by (intro divide_left_mono) simp_all
      also have "\<dots> = of_int \<bar>t\<bar>" by simp
      also have "\<dots> < of_int (2 ^ 52)" using t by (simp only: of_int_less_iff)
      finally show ?thesis by simp
    qed
    then have "\<bar>(of_int (2 * m - 1) :: rat)\<bar> < 2 ^ 53" by (simp add: qk)
    then have "(of_int \<bar>2 * m - 1\<bar> :: rat) < of_int (2 ^ 53)" by simp
    then have "\<bar>2 * m - 1\<bar> < 2 ^ 53" by (simp only: of_int_less_iff)
    from fl_half [OF this] have "fl q = q" by (simp only: qk)
    with True show ?thesis by simp
  next
    case False
    with mlo have "of_int m - 1 / 2 < q" by simp
    then have "(of_int m - 1 / 2) * of_int n < q * of_int n" using nr by (simp only: mult_strict_right_mono)
    then have "(of_int ((2 * m - 1) * n) :: rat) < of_int (2 * t)" using nr by (simp add: q_def algebra_simps)
    then have "(2 * m - 1) * n < 2 * t" by (simp only: of_int_less_iff)
    then have "(2 * m - 1) * n + 1 \<le> 2 * t" by simp
    then have "(of_int ((2 * m - 1) * n + 1) :: rat) \<le> of_int (2 * t)" by (simp only: of_int_le_iff)
    then have "(of_int ((2 * m - 1) * n + 1) :: rat) / (2 * of_int n) \<le> of_int (2 * t) / (2 * of_int n)"
      using nr by (intro divide_right_mono) simp_all
    moreover have "of_int m - 1 / 2 + 1 / (2 * of_int n) = (of_int ((2 * m - 1) * n + 1) :: rat) / (2 * of_int n)"
      using nr by (simp add: field_simps)
    moreover have "q = of_int (2 * t) / (2 * of_int n)" by (simp add: q_def)
    ultimately have "of_int m - 1 / 2 + 1 / (2 * of_int n) \<le> q" by simp
    with err' show ?thesis by linarith
  qed
  from lo up have "\<lfloor>fl q + 1 / 2\<rfloor> = m" by (intro floor_unique) simp_all
  then show ?thesis by (simp add: Math_round_def js_div_def q_def m_def)
qed

lemma fl_of_int:
  assumes "\<bar>k\<bar> < 2 ^ 52"
  shows "fl (of_int k) = of_int k"
proof -
  from assms have "\<bar>2 * k\<bar> < 2 ^ 53" by simp
  from fl_half [OF this] show ?thesis by simp
qed

lemma js_add_int: "\<bar>a + b\<bar> < 2 ^ 52 \<Longrightarrow> js_add (of_int a) (of_int b) = of_int (a + b)"
  using fl_of_int [of "a + b"] by (simp add: js_add_def)

lemma js_sub_int: "\<bar>a - b\<bar> < 2 ^ 52 \<Longrightarrow> js_sub (of_int a) (of_int b) = of_int (a - b)"
  using fl_of_int [of "a - b"] by (simp add: js_sub_def)

lemma js_mul_int: "\<bar>a * b\<bar> < 2 ^ 52 \<Longrightarrow> js_mul (of_int a) (of_int b) = of_int (a * b)"
  using fl_of_int [of "a * b"] by (simp add: js_mul_def)

lemma js_sum_exact:
  assumes "\<forall>x \<in> set xs. 0 \<le> f x" and "0 \<le> a" and "a + (\<Sum>x\<leftarrow>xs. f x) < 2 ^ 52"
  shows "foldl (\<lambda>sum x. js_add sum (of_int (f x))) (of_int a) xs = of_int (a + (\<Sum>x\<leftarrow>xs. f x))"
  using assms
proof (induction xs arbitrary: a)
  case Nil
  then show ?case by simp
next
  case (Cons x xs)
  have rest: "0 \<le> (\<Sum>x\<leftarrow>xs. f x)"
    using Cons.prems(1) by (auto intro!: sum_list_nonneg)
  have fx: "0 \<le> f x" using Cons.prems(1) by simp
  from Cons.prems(3) rest fx Cons.prems(2) have "\<bar>a + f x\<bar> < 2 ^ 52" by simp
  then have step: "js_add (of_int a) (of_int (f x)) = of_int (a + f x)"
    by (rule js_add_int)
  have "foldl (\<lambda>sum x. js_add sum (of_int (f x))) (of_int (a + f x)) xs
      = of_int (a + f x + (\<Sum>x\<leftarrow>xs. f x))"
    using Cons.prems fx by (intro Cons.IH) (simp_all add: add.assoc)
  then show ?case by (simp add: step add.assoc)
qed


section \<open>Properties of the Score Calculator\<close>

lemma impactWeight_known:
  "impactWeight ''critical'' = Some 4" "impactWeight ''serious'' = Some 3"
  "impactWeight ''moderate'' = Some 2" "impactWeight ''minor'' = Some 1"
  by (simp_all add: impactWeight_def impactWeights_def js_or_def)

lemma impactWeight_unknown:
  "i \<notin> {''critical'', ''serious'', ''moderate'', ''minor''} \<Longrightarrow> i \<notin> set objectPrototypeKeys \<Longrightarrow>
   impactWeight i = Some 1"
  by (simp add: impactWeight_def impactWeights_def)

lemma impactWeight_own:
  "i \<notin> set objectPrototypeKeys \<Longrightarrow> impactWeight i = Some (impactWeight_spec i)"
  by (simp add: impactWeight_def impactWeights_def impactWeight_spec_def js_or_def)

lemma impactWeight_spec_pos: "1 \<le> impactWeight_spec i"
  by (simp add: impactWeight_spec_def)

lemma weightedViolations_nonneg: "0 \<le> weightedViolations_spec vs"
proof -
  have "0 \<le> impactWeight_spec (impact v) * int (length (nodes v))" for v :: axe_rule
    using impactWeight_spec_pos [of "impact v"] by simp
  then show ?thesis
    by (auto simp add: weightedViolations_spec_def intro!: sum_list_nonneg)
qed

lemma weightedViolations_le:
  "weightedViolations_spec vs \<le> 4 * (\<Sum>v\<leftarrow>vs. int (length (nodes v)))"
proof (induction vs)
  case Nil
  then show ?case by (simp add: weightedViolations_spec_def)
next
  case (Cons v vs)
  have "impactWeight_spec (impact v) \<le> 4" by (simp add: impactWeight_spec_def)
  then have "impactWeight_spec (impact v) * int (length (nodes v)) \<le> 4 * int (length (nodes v))"
    by (intro mult_right_mono) simp_all
  with Cons show ?case by (simp add: weightedViolations_spec_def)
qed

lemma weighViolations_exact:
  assumes "\<forall>v \<in> set vs. impact v \<notin> set objectPrototypeKeys"
    and "0 \<le> a" and "a + weightedViolations_spec vs < 2 ^ 52"
  shows "weighViolations vs (Some (of_int a)) = Some (of_int (a + weightedViolations_spec vs))"
  using assms
proof (induction vs arbitrary: a)
  case Nil
  then show ?case by (simp add: weightedViolations_spec_def)
next
  case (Cons v vs)
  define p where "p = impactWeight_spec (impact v) * int (length (nodes v))"
  have split: "weightedViolations_spec (v # vs) = p + weightedViolations_spec vs"
    by (simp add: weightedViolations_spec_def p_def)
  have p0: "0 \<le> p"
    using impactWeight_spec_pos [of "impact v"] by (simp add: p_def)
  have r0: "0 \<le> weightedViolations_spec vs" by (rule weightedViolations_nonneg)
  from Cons.prems(3) split have bound: "a + p + weightedViolations_spec vs < 2 ^ 52" by simp
  from Cons.prems(1) have w: "impactWeight (impact v) = Some (impactWeight_spec (impact v))"
    by (simp add: impactWeight_own)
  have "\<bar>impactWeight_spec (impact v) * int (length (nodes v))\<bar> < 2 ^ 52"
    using p0 r0 bound Cons.prems(2) unfolding p_def by linarith
  then have m: "js_mul (of_int (impactWeight_spec (impact v))) (of_int (int (length (nodes v))))
      = of_int p"
    unfolding p_def by (rule js_mul_int)
  have "\<bar>a + p\<bar> < 2 ^ 52" using p0 r0 bound Cons.prems(2) by linarith
  then have s: "js_add (of_int a) (of_int p) = of_int (a + p)" by (rule js_add_int)
  have step: "weighViolations (v # vs) (Some (of_int a)) = weighViolations vs (Some (of_int (a + p)))"
    using m s by (simp add: w)
  have "weighViolations vs (Some (of_int (a + p))) = Some (of_int (a + p + weightedViolations_spec vs))"
    using Cons.prems(1,2) p0 bound by (intro Cons.IH) simp_all
  with step split show ?case by (simp add: add.assoc)
qed

lemma calculateScore_exact:
  assumes impacts: "\<forall>v \<in> set (violations results). impact v \<notin> set objectPrototypeKeys"
    and nodes: "(\<Sum>v\<leftarrow>violations results. int (length (nodes v))) < 2 ^ 50"
    and tests: "length (passes results) + length (violations results) \<le> 2 ^ 41"
  shows "calculateScore results =
     Some (let totalTests = int (length (passes results)) + int (length (violations results));
               maxPossibleWeight = totalTests * 4;
               weightedViolations = weightedViolations_spec (violations results)
           in if totalTests = 0 then 100
              else max 0 (min 100 (Math_round (js_mul
                     (js_div (of_int (maxPossibleWeight - weightedViolations))
                             (of_int maxPossibleWeight)) 100))))"
proof -
  define T where "T = int (length (passes results)) + int (length (violations results))"
  define w where "w = weightedViolations_spec (violations results)"
  have T0: "0 \<le> T" by (simp add: T_def)
  have "int (length (passes results) + length (violations results)) \<le> int (2 ^ 41)"
    using tests by (simp only: of_nat_le_iff)
  then have T41: "T \<le> 2 ^ 41" by (simp add: T_def)
  have w0: "0 \<le> w" unfolding w_def by (rule weightedViolations_nonneg)
  have "w \<le> 4 * (\<Sum>v\<leftarrow>violations results. int (length (nodes v)))"
    unfolding w_def by (rule weightedViolations_le)
  moreover have "(4::int) * 2 ^ 50 = 2 ^ 52" by simp
  ultimately have w52: "w < 2 ^ 52" using nodes by linarith
  have p41: "(2::int) ^ 41 * 4 < 2 ^ 52" by simp
  have "\<bar>int (length (passes results)) + int (length (violations results))\<bar> < 2 ^ 52"
    using T0 T41 p41 unfolding T_def by linarith
  then have "js_add (of_int (int (length (passes results)))) (of_int (int (length (violations results))))
      = of_int T"
    unfolding T_def by (rule js_add_int)
  then have tt: "js_add (of_nat (length (passes results))) (of_nat (length (violations results)))
      = of_int T"
    by simp
  have T4: "\<bar>T * 4\<bar> < 2 ^ 52" using T0 T41 p41 by linarith
  then have mm: "js_mul (of_int T) 4 = of_int (T * 4)"
    using js_mul_int [of T 4] by simp
  have "\<bar>T * 4 - w\<bar> < 2 ^ 52" using T0 T4 w0 w52 by linarith
  then have ss: "js_sub (of_int (T * 4)) (of_int w) = of_int (T * 4 - w)"
    by (rule js_sub_int)
  have "weighViolations (violations results) (Some (of_int 0)) = Some (of_int (0 + w))"
    unfolding w_def using impacts w52 [unfolded w_def] by (intro weighViolations_exact) simp_all
  then have ww: "weighViolations (violations results) (Some 0) = Some (of_int w)" by simp
  show ?thesis
    unfolding calculateScore_def Let_def tt ww T_def [symmetric] w_def [symmetric]
    by (simp add: mm ss del: of_int_diff of_int_mult)
qed

lemma clamp_step:
  fixes a m :: int
  assumes "a = m \<or> a = m - 1"
  shows "max 0 (min 100 a) = max 0 (min 100 m) \<or> max 0 (min 100 a) = max 0 (min 100 m) - 1"
  using assms by auto

lemma mul_div_close:
  fixes q :: rat
  assumes "\<bar>q\<bar> \<le> 1" and that: "q = n / d"
  shows "\<bar>js_mul (js_div n d) 100 - 100 * q\<bar> \<le> 300 / 2 ^ 53"
proof -
  define a where "a = fl q"
  define b where "b = fl (a * 100)"
  have ea: "\<bar>a - q\<bar> \<le> \<bar>q\<bar> / 2 ^ 53" unfolding a_def by (rule fl_err)
  have eb: "\<bar>b - a * 100\<bar> \<le> \<bar>a * 100\<bar> / 2 ^ 53" unfolding b_def by (rule fl_err)
  from ea assms have ea': "\<bar>a - q\<bar> \<le> 1 / 2 ^ 53"
    by (meson divide_right_mono order_trans zero_le_numeral zero_le_power)
  then have "\<bar>a\<bar> \<le> \<bar>q\<bar> + 1 / 2 ^ 53" by linarith
  with assms have a2: "\<bar>a\<bar> \<le> 2" by simp
  have "\<bar>a * 100\<bar> = \<bar>a\<bar> * 100" by (simp add: abs_mult)
  with a2 have "\<bar>a * 100\<bar> \<le> 200" by simp
  then have "\<bar>a * 100\<bar> / 2 ^ 53 \<le> 200 / 2 ^ 53"
    by (intro divide_right_mono) simp_all
  with eb have eb': "\<bar>b - a * 100\<bar> \<le> 200 / 2 ^ 53" by linarith
  have e1: "a * 100 - 100 * q = (a - q) * 100" by (simp add: algebra_simps)
  have "\<bar>a * 100 - 100 * q\<bar> = \<bar>(a - q) * 100\<bar>" by (simp only: e1)
  also have "\<dots> = 100 * \<bar>a - q\<bar>" by (subst abs_mult) simp
  finally have "\<bar>a * 100 - 100 * q\<bar> = 100 * \<bar>a - q\<bar>" .
  with ea' have "\<bar>a * 100 - 100 * q\<bar> \<le> 100 / 2 ^ 53" by simp
  with eb' have "\<bar>b - 100 * q\<bar> \<le> 300 / 2 ^ 53" by linarith
  then show ?thesis
    by (simp add: js_mul_def js_div_def a_def b_def that)
qed

lemma round_close:
  fixes N M :: int
  assumes M: "0 < M" "M \<le> 2 ^ 43" and N: "- M < N" "N \<le> M"
  shows "Math_round (js_mul (js_div (of_int N) (of_int M)) 100) = \<lfloor>(of_int N / of_int M) * 100 + 1 / 2 :: rat\<rfloor>
       \<or> (Math_round (js_mul (js_div (of_int N) (of_int M)) 100) = \<lfloor>(of_int N / of_int M) * 100 + 1 / 2 :: rat\<rfloor> - 1
            \<and> (\<exists>k. 200 * N = (2 * k + 1) * M))"
proof -
  define q :: rat where "q = of_int N / of_int M"
  define X :: rat where "X = q * 100"
  define b where "b = js_mul (js_div (of_int N) (of_int M)) 100"
  define m where "m = \<lfloor>X + 1 / 2\<rfloor>"
  have Mr: "(0::rat) < of_int M" using M by simp
  have "\<bar>of_int N :: rat\<bar> \<le> of_int M"
    using N by (simp add: abs_le_iff)
  then have q1: "\<bar>q\<bar> \<le> 1" using Mr by (simp add: q_def)
  define e :: rat where "e = 300 / 2 ^ 53"
  define d :: rat where "d = 1 / (2 * of_int M)"
  from mul_div_close [OF q1 q_def]
  have close: "\<bar>b - X\<bar> \<le> e" by (simp add: b_def X_def e_def mult.commute)
  have "(600::int) * M \<le> 600 * 2 ^ 43" using M by simp
  also have "\<dots> < 2 ^ 53" by simp
  finally have "600 * M < (2::int) ^ 53" .
  then have "(of_int (600 * M) :: rat) < of_int (2 ^ 53)" by (simp only: of_int_less_iff)
  then have "600 * (of_int M :: rat) < 2 ^ 53" by simp
  then have eps: "e < d"
    using Mr by (simp add: e_def d_def field_simps)
  have mlo: "of_int m - 1 / 2 \<le> X" and mhi: "X < of_int m + 1 / 2"
    unfolding m_def by linarith+
  have XM: "X * (2 * of_int M) = of_int (200 * N)"
    using Mr by (simp add: X_def q_def)
  have half: "d \<le> 1 / 2"
    using M by (simp add: d_def field_simps)
  show ?thesis
  proof (cases "X = of_int m - 1 / 2")
    case True
    have "(of_int m - 1 / 2) * (2 * of_int M) = (of_int ((2 * (m - 1) + 1) * M) :: rat)"
      by (simp add: algebra_simps)
    with True have "X * (2 * of_int M) = of_int ((2 * (m - 1) + 1) * M)"
      by simp
    with XM have "(of_int (200 * N) :: rat) = of_int ((2 * (m - 1) + 1) * M)" by simp
    then have tie: "200 * N = (2 * (m - 1) + 1) * M" by (simp only: of_int_eq_iff)
    from close eps half True have "of_int m - 1 \<le> b + 1 / 2" "b + 1 / 2 < of_int m + 1"
      by linarith+
    then have "m - 1 \<le> \<lfloor>b + 1 / 2\<rfloor>" "\<lfloor>b + 1 / 2\<rfloor> < m + 1"
      by linarith+
    then have "\<lfloor>b + 1 / 2\<rfloor> = m - 1 \<or> \<lfloor>b + 1 / 2\<rfloor> = m"
      by linarith
    with tie show ?thesis
      unfolding Math_round_def b_def [symmetric] m_def [symmetric] X_def [symmetric] q_def [symmetric]
      by blast
  next
    case False
    with mlo have lo: "of_int m - 1 / 2 < X" by simp
    have "(of_int ((2 * m - 1) * M) :: rat) < of_int (200 * N)"
    proof -
      have l: "(of_int m - 1 / 2) * (2 * of_int M) = (of_int ((2 * m - 1) * M) :: rat)"
        by (simp add: algebra_simps)
      have "(of_int m - 1 / 2) * (2 * of_int M) < X * (2 * of_int M)"
        using lo Mr by (intro mult_strict_right_mono) simp_all
      then show ?thesis unfolding l XM .
    qed
    then have "(2 * m - 1) * M < 200 * N" by (simp only: of_int_less_iff)
    then have "(2 * m - 1) * M + 1 \<le> 200 * N" by simp
    then have "(of_int ((2 * m - 1) * M + 1) :: rat) \<le> of_int (200 * N)" by (simp only: of_int_le_iff)
    then have "(of_int ((2 * m - 1) * M + 1) :: rat) / (2 * of_int M) \<le> of_int (200 * N) / (2 * of_int M)"
      using Mr by (intro divide_right_mono) simp_all
    moreover have "(of_int ((2 * m - 1) * M + 1) :: rat) / (2 * of_int M) = of_int m - 1 / 2 + d"
      using Mr by (simp add: d_def field_simps)
    moreover have "of_int (200 * N) / (2 * of_int M) = X"
      using Mr XM by (simp add: field_simps)
    ultimately have lo': "of_int m - 1 / 2 + d \<le> X" by simp
    have "(of_int (200 * N) :: rat) < of_int ((2 * m + 1) * M)"
    proof -
      have u: "(of_int m + 1 / 2) * (2 * of_int M) = (of_int ((2 * m + 1) * M) :: rat)"
        by (simp add: algebra_simps)
      have "X * (2 * of_int M) < (of_int m + 1 / 2) * (2 * of_int M)"
        using mhi Mr by (intro mult_strict_right_mono) simp_all
      then show ?thesis unfolding u XM .
    qed
    then have "200 * N < (2 * m + 1) * M" by (simp only: of_int_less_iff)
    then have "200 * N + 1 \<le> (2 * m + 1) * M" by simp
    then have "(of_int (200 * N + 1) :: rat) \<le> of_int ((2 * m + 1) * M)" by (simp only: of_int_le_iff)
    then have "(of_int (200 * N + 1) :: rat) / (2 * of_int M) \<le> of_int ((2 * m + 1) * M) / (2 * of_int M)"
      using Mr by (intro divide_right_mono) simp_all
    moreover have "(of_int (200 * N + 1) :: rat) / (2 * of_int M) = X + d"
      using Mr XM by (simp add: d_def field_simps)
    moreover have "(of_int ((2 * m + 1) * M) :: rat) / (2 * of_int M) = of_int m + 1 / 2"
      using Mr by (simp add: field_simps)
    ultimately have hi': "X + d \<le> of_int m + 1 / 2" by simp
    from close eps lo' hi' have "of_int m \<le> b + 1 / 2" "b + 1 / 2 < of_int m + 1"
      by linarith+
    then have "\<lfloor>b + 1 / 2\<rfloor> = m" by (intro floor_unique)
    then show ?thesis
      unfolding Math_round_def b_def [symmetric] m_def [symmetric] X_def [symmetric] q_def [symmetric]
      by blast
  qed
qed


lemma fl_negative:
  assumes "x < 0"
  shows "fl x < 0"
proof -
  have e: "\<bar>fl x - x\<bar> \<le> \<bar>x\<bar> / 2 ^ 53" by (rule fl_err)
  have "\<bar>x\<bar> / 2 ^ 53 < \<bar>x\<bar> / 1"
    using assms by (intro divide_strict_left_mono) simp_all
  then have "\<bar>x\<bar> / 2 ^ 53 < \<bar>x\<bar>" by (simp only: div_by_1)
  with e assms show ?thesis by linarith
qed

lemma round_negative:
  fixes N M :: int
  assumes "0 < M" "N \<le> - M"
  shows "Math_round (js_mul (js_div (of_int N) (of_int M)) 100) \<le> 0
       \<and> \<lfloor>(of_int N / of_int M) * 100 + 1 / 2 :: rat\<rfloor> \<le> 0"
proof -
  have Mr: "(0::rat) < of_int M" using assms(1) by simp
  have "(of_int N :: rat) \<le> of_int (- M)" using assms(2) by (simp only: of_int_le_iff)
  then have "(of_int N :: rat) / of_int M \<le> of_int (- M) / of_int M"
    using Mr by (intro divide_right_mono) simp_all
  then have q: "(of_int N :: rat) / of_int M \<le> - 1" using Mr by simp
  then have "(of_int N :: rat) / of_int M < 0" by linarith
  then have "fl (of_int N / of_int M) < 0" by (rule fl_negative)
  then have "fl (of_int N / of_int M) * 100 < 0" by simp
  then have "fl (fl (of_int N / of_int M) * 100) < 0" by (rule fl_negative)
  then have "\<lfloor>fl (fl (of_int N / of_int M) * 100) + 1 / 2\<rfloor> \<le> 0"
    by (simp add: floor_le_iff)
  moreover from q have "\<lfloor>(of_int N / of_int M) * 100 + 1 / 2 :: rat\<rfloor> \<le> 0"
    by (simp add: floor_le_iff)
  ultimately show ?thesis by (simp add: Math_round_def js_mul_def js_div_def)
qed

lemma calculateScore_near_exact:
  assumes impacts: "\<forall>v \<in> set (violations results). impact v \<notin> set objectPrototypeKeys"
    and nodes: "(\<Sum>v\<leftarrow>violations results. int (length (nodes v))) < 2 ^ 50"
    and tests: "length (passes results) + length (violations results) \<le> 2 ^ 41"
  shows "calculateScore results = Some (score_spec (violations results) (length (passes results)))
       \<or> (calculateScore results
            = Some (score_spec (violations results) (length (passes results)) - 1)
            \<and> (\<exists>k. 200 * (4 * (int (length (passes results)) + int (length (violations results)))
                          - weightedViolations_spec (violations results))
                   = (2 * k + 1)
                     * (4 * (int (length (passes results)) + int (length (violations results))))))"
proof -
  define T where "T = int (length (passes results)) + int (length (violations results))"
  define w where "w = weightedViolations_spec (violations results)"
  define M where "M = T * 4"
  define N where "N = M - w"
  define code where "code = Math_round (js_mul (js_div (of_int N) (of_int M)) 100)"
  define spec where "spec = \<lfloor>(of_int N / of_int M) * 100 + 1 / 2 :: rat\<rfloor>"
  have T0: "0 \<le> T" by (simp add: T_def)
  note exact = calculateScore_exact [OF impacts nodes tests]
  show ?thesis
  proof (cases "T = 0")
    case True
    then show ?thesis
      using exact by (simp add: score_spec_def T_def)
  next
    case False
    with T0 have M0: "0 < M" by (simp add: M_def)
    have "int (length (passes results) + length (violations results)) \<le> int (2 ^ 41)"
      using tests by (simp only: of_nat_le_iff)
    then have "T \<le> 2 ^ 41" by (simp add: T_def)
    then have M43: "M \<le> 2 ^ 43" by (simp add: M_def)
    have NM: "N \<le> M" using weightedViolations_nonneg [of "violations results"] by (simp add: N_def w_def)
    have c: "calculateScore results = Some (max 0 (min 100 code))"
      using False exact
      by (simp add: Let_def T_def [symmetric]
          w_def [symmetric] M_def [symmetric] N_def [symmetric] code_def del: of_int_diff)
    have s: "score_spec (violations results) (length (passes results)) = max 0 (min 100 spec)"
      using False
      by (simp add: score_spec_def Let_def T_def [symmetric] w_def [symmetric] M_def [symmetric]
          N_def [symmetric] spec_def Math_round_def del: of_int_diff)
    have tie_eq: "(\<exists>k. 200 * (4 * T - w) = (2 * k + 1) * (4 * T)) \<longleftrightarrow> (\<exists>k. 200 * N = (2 * k + 1) * M)"
      by (simp add: N_def M_def mult.commute)
    show ?thesis
    proof (cases "N \<le> - M")
      case True
      from round_negative [OF M0 True] have "code \<le> 0" "spec \<le> 0"
        by (simp_all add: code_def spec_def)
      then have "max 0 (min 100 code) = max 0 (min 100 spec)" by simp
      with c s show ?thesis by simp
    next
      case False
      then have "- M < N" by simp
      from round_close [OF M0 M43 this NM]
      have "code = spec \<or> (code = spec - 1 \<and> (\<exists>k. 200 * N = (2 * k + 1) * M))"
        by (simp add: code_def spec_def)
      then show ?thesis
      proof
        assume "code = spec"
        with c s show ?thesis by simp
      next
        assume a: "code = spec - 1 \<and> (\<exists>k. 200 * N = (2 * k + 1) * M)"
        then have "max 0 (min 100 code) = max 0 (min 100 spec)
            \<or> max 0 (min 100 code) = max 0 (min 100 spec) - 1"
          by (intro clamp_step) simp
        with a c s tie_eq show ?thesis
          unfolding T_def w_def by auto
      qed
    qed
  qed
qed

text \<open>
  C2 (as stated, read in exact arithmetic, fails). With eight passes, a critical violation
  on four nodes and a minor violation on one node, \<open>maxPossibleWeight = 40\<close> and
  \<open>weightedViolations = 17\<close>. Exactly, \<open>(23 / 40) \<times> 100 = 57.5\<close>, which rounds to 58. The
  program divides first: the double nearest to \<open>23 / 40\<close> lies just below it, its product
  with 100 is the double \<open>57.49999999999999\<close>, and \<open>Math.round\<close> gives 57.
\<close>

theorem calculateScore_tie_counterexample:
  "calculateScore tie_results = Some 57 \<and>
   score_spec (violations tie_results) (length (passes tie_results)) = 58"
  by code_simp

text \<open>
  C2 (amended). For every result of the rule engine in which no violation's impact is the
  name of a property inherited from \<open>Object.prototype\<close>, with at most \<open>2^41\<close> tests and fewer
  than \<open>2^50\<close> affected nodes in all (so that the sums and products of the program are exact),
  \<open>calculateScore\<close> is 100 when \<open>totalTests = passCount + violationCount\<close> is zero, and
  otherwise
  \<open>Math.round(((maxPossibleWeight - weightedViolations) / maxPossibleWeight) * 100)\<close> clamped
  to \<open>[0, 100]\<close>, where the division and the multiplication by 100 are the double-precision
  operations of the program, \<open>weightedViolations\<close> is the sum over the violations of
  \<open>impactWeight \<times> affectedNodeCount\<close>, the weights are critical 4, serious 3, moderate 2,
  minor 1 and 1 for any other such impact, and \<open>maxPossibleWeight = totalTests \<times> 4\<close>. The
  result is a number between 0 and 100. No violations and no passes give 100; a single
  critical violation on one node with no passes gives 0. The result is the one of the formula
  in exact arithmetic, except that it can be one less when the exact percentage
  \<open>100 \<times> (maxPossibleWeight - weightedViolations) / maxPossibleWeight\<close> is a half-integer.
\<close>

theorem calculateScore_formula:
  assumes "\<forall>v \<in> set (violations results). impact v \<notin> set objectPrototypeKeys"
    and "(\<Sum>v\<leftarrow>violations results. int (length (nodes v))) < 2 ^ 50"
    and "length (passes results) + length (violations results) \<le> 2 ^ 41"
  shows "calculateScore results =
     Some (let totalTests = int (length (passes results)) + int (length (violations results));
               maxPossibleWeight = totalTests * 4;
               weightedViolations =
                 (\<Sum>v\<leftarrow>violations results. impactWeight_spec (impact v) * int (length (nodes v)))
           in if totalTests = 0 then 100
              else max 0 (min 100 (Math_round (js_mul
                     (js_div (of_int (maxPossibleWeight - weightedViolations))
                             (of_int maxPossibleWeight)) 100))))
   \<and> (\<exists>s. calculateScore results = Some s \<and> 0 \<le> s \<and> s \<le> 100)
   \<and> (\<forall>v \<in> set (violations results). impactWeight (impact v) = Some (impactWeight_spec (impact v)))
   \<and> impactWeight ''critical'' = Some 4 \<and> impactWeight ''serious'' = Some 3
   \<and> impactWeight ''moderate'' = Some 2 \<and> impactWeight ''minor'' = Some 1
   \<and> (\<forall>i. i \<notin> {''critical'', ''serious'', ''moderate'', ''minor''} \<longrightarrow>
          i \<notin> set objectPrototypeKeys \<longrightarrow> impactWeight i = Some 1)
   \<and> calculateScore \<lparr>passes = [], violations = []\<rparr> = Some 100
   \<and> calculateScore
        \<lparr>passes = [],
         violations = [\<lparr>ruleId = r, impact = ''critical'', nodes = [n]\<rparr>]\<rparr> = Some 0
   \<and> (calculateScore results = Some (score_spec (violations results) (length (passes results)))
        \<or> (calculateScore results
             = Some (score_spec (violations results) (length (passes results)) - 1)
             \<and> (\<exists>k. 200 * (4 * (int (length (passes results)) + int (length (violations results)))
                           - weightedViolations_spec (violations results))
                    = (2 * k + 1)
                      * (4 * (int (length (passes results)) + int (length (violations results)))))))"
proof -
  note exact = calculateScore_exact [OF assms]
  have formula: "calculateScore results =
     Some (let totalTests = int (length (passes results)) + int (length (violations results));
               maxPossibleWeight = totalTests * 4;
               weightedViolations =
                 (\<Sum>v\<leftarrow>violations results. impactWeight_spec (impact v) * int (length (nodes v)))
           in if totalTests = 0 then 100
              else max 0 (min 100 (Math_round (js_mul
                     (js_div (of_int (maxPossibleWeight - weightedViolations))
                             (of_int maxPossibleWeight)) 100))))"
    using exact unfolding weightedViolations_spec_def .
  have range: "\<exists>s. calculateScore results = Some s \<and> 0 \<le> s \<and> s \<le> 100"
    unfolding exact by (simp add: Let_def)
  have used: "\<forall>v \<in> set (violations results).
      impactWeight (impact v) = Some (impactWeight_spec (impact v))"
    using assms(1) by (simp add: impactWeight_own)
  have unknown: "\<forall>i. i \<notin> {''critical'', ''serious'', ''moderate'', ''minor''} \<longrightarrow>
      i \<notin> set objectPrototypeKeys \<longrightarrow> impactWeight i = Some 1"
    using impactWeight_unknown by blast
  have none: "calculateScore \<lparr>passes = [], violations = []\<rparr> = Some 100"
    using calculateScore_exact [of "\<lparr>passes = [], violations = []\<rparr>"] by simp
  have "fl 0 = 0"
    by (simp add: fl_def)
  then have one: "calculateScore
        \<lparr>passes = [],
         violations = [\<lparr>ruleId = r, impact = ''critical'', nodes = [n]\<rparr>]\<rparr> = Some 0"
    using calculateScore_exact
      [of "\<lparr>passes = [], violations = [\<lparr>ruleId = r, impact = ''critical'', nodes = [n]\<rparr>]\<rparr>"]
    by (simp add: objectPrototypeKeys_def weightedViolations_spec_def impactWeight_spec_def
        js_div_def js_mul_def Math_round_def)
  note near = calculateScore_near_exact [OF assms]
  have weights: "impactWeight ''critical'' = Some 4 \<and> impactWeight ''serious'' = Some 3
      \<and> impactWeight ''moderate'' = Some 2 \<and> impactWeight ''minor'' = Some 1"
    by (simp only: impactWeight_known simp_thms)
  show ?thesis
    by (intro conjI formula range used
        weights [THEN conjunct1] weights [THEN conjunct2, THEN conjunct1]
        weights [THEN conjunct2, THEN conjunct2, THEN conjunct1]
        weights [THEN conjunct2, THEN conjunct2, THEN conjunct2] unknown none one near)
qed

theorem calculateScore_formula_witness:
  "list_all (\<lambda>v. impact v \<notin> set objectPrototypeKeys) (violations tie_results)
   \<and> (\<Sum>v\<leftarrow>violations tie_results. int (length (nodes v))) < 2 ^ 50
   \<and> length (passes tie_results) + length (violations tie_results) \<le> 2 ^ 41
   \<and> list_all (\<lambda>v. impactWeight (impact v) = Some (impactWeight_spec (impact v)))
         (violations tie_results)
   \<and> ''null'' \<notin> {''critical'', ''serious'', ''moderate'', ''minor''}
   \<and> ''null'' \<notin> set objectPrototypeKeys
   \<and> impactWeight ''null'' = Some 1
   \<and> calculateScore tie_results = Some 57
   \<and> score_spec (violations tie_results) (length (passes tie_results)) - 1 = 57
   \<and> 200 * (4 * (int (length (passes tie_results)) + int (length (violations tie_results)))
            - weightedViolations_spec (violations tie_results))
       = (2 * 57 + 1)
         * (4 * (int (length (passes tie_results)) + int (length (violations tie_results))))"
proof -
  have h1: "\<forall>v \<in> set (violations tie_results). impact v \<notin> set objectPrototypeKeys"
    by (simp add: tie_results_def objectPrototypeKeys_def)
  have h2: "(\<Sum>v\<leftarrow>violations tie_results. int (length (nodes v))) < 2 ^ 50"
    by (simp add: tie_results_def)
  have h3: "length (passes tie_results) + length (violations tie_results) \<le> 2 ^ 41"
    by (simp add: tie_results_def)
  note formula = calculateScore_formula [OF h1 h2 h3]
  from formula [THEN conjunct2, THEN conjunct2, THEN conjunct1]
  have used: "list_all (\<lambda>v. impactWeight (impact v) = Some (impactWeight_spec (impact v)))
      (violations tie_results)"
    by (simp only: list_all_iff)
  have "impactWeight ''null'' = Some 1"
    using formula by (simp add: objectPrototypeKeys_def)
  moreover have "calculateScore tie_results = Some 57"
    by code_simp
  moreover have "score_spec (violations tie_results) (length (passes tie_results)) - 1 = 57"
    by code_simp
  moreover have "200 * (4 * (int (length (passes tie_results)) + int (length (violations tie_results)))
            - weightedViolations_spec (violations tie_results))
       = (2 * 57 + 1)
         * (4 * (int (length (passes tie_results)) + int (length (violations tie_results))))"
    by code_simp
  moreover have "list_all (\<lambda>v. impact v \<notin> set objectPrototypeKeys) (violations tie_results)"
    using h1 by (simp add: list_all_iff)
  ultimately show ?thesis using h2 h3 used by (simp add: objectPrototypeKeys_def)
qed

lemma fl_positive:
  assumes "0 < x"
  shows "0 < fl x"
proof -
  have e: "\<bar>fl x - x\<bar> \<le> \<bar>x\<bar> / 2 ^ 53" by (rule fl_err)
  have "\<bar>x\<bar> / 2 ^ 53 < \<bar>x\<bar> / 1"
    using assms by (intro divide_strict_left_mono) simp_all
  then have "\<bar>x\<bar> / 2 ^ 53 < \<bar>x\<bar>" by (simp only: div_by_1)
  with e assms show ?thesis by linarith
qed

lemma impactWeight_inherited: "i \<in> set objectPrototypeKeys \<Longrightarrow> impactWeight i = None"
  by (auto simp add: impactWeight_def impactWeights_def objectPrototypeKeys_def)

lemma weighViolations_NaN: "weighViolations vs None = None"
  by (induction vs) simp_all

lemma weighViolations_inherited:
  "\<exists>v \<in> set vs. impactWeight (impact v) = None \<Longrightarrow> weighViolations vs acc = None"
proof (induction vs arbitrary: acc)
  case Nil
  then show ?case by simp
next
  case (Cons v vs)
  show ?case
  proof (cases "impactWeight (impact v)")
    case None
    then show ?thesis by (simp add: weighViolations_NaN split: option.splits)
  next
    case (Some w)
    with Cons.prems have "\<exists>v \<in> set vs. impactWeight (impact v) = None" by auto
    then show ?thesis by (simp add: Cons.IH)
  qed
qed

text \<open>
  The score for an impact that names a property inherited from \<open>Object.prototype\<close>: every
  result with a violation of such an impact is scored \<open>NaN\<close>; so is the result without passes
  whose only violation has the impact \<open>constructor\<close>.
\<close>

theorem calculateScore_inherited_impact:
  assumes "v \<in> set (violations results)" and "impact v \<in> set objectPrototypeKeys"
  shows "calculateScore results = None"
proof -
  from assms(1) have "0 < length (violations results)" by (cases "violations results") simp_all
  then have "(0::rat) < of_nat (length (passes results)) + of_nat (length (violations results))"
    by (simp add: add_nonneg_pos)
  then have "0 < js_add (of_nat (length (passes results))) (of_nat (length (violations results)))"
    unfolding js_add_def by (rule fl_positive)
  then have tests: "js_add (of_nat (length (passes results))) (of_nat (length (violations results))) \<noteq> 0"
    by simp
  from assms have "\<exists>v \<in> set (violations results). impactWeight (impact v) = None"
    using impactWeight_inherited by blast
  then have "weighViolations (violations results) (Some 0) = None"
    by (rule weighViolations_inherited)
  with tests show ?thesis
    by (simp add: calculateScore_def Let_def)
qed

theorem calculateScore_inherited_impact_witness:
  "\<lparr>ruleId = ''region'', impact = ''constructor'', nodes = [a_node]\<rparr> \<in> set (violations inherited_results)
   \<and> ''constructor'' \<in> set objectPrototypeKeys
   \<and> calculateScore inherited_results = None"
proof -
  have m: "\<lparr>ruleId = ''region'', impact = ''constructor'', nodes = [a_node]\<rparr>
      \<in> set (violations inherited_results)"
    by (simp add: inherited_results_def)
  have k: "impact \<lparr>ruleId = ''region'', impact = ''constructor'', nodes = [a_node]\<rparr>
      \<in> set objectPrototypeKeys"
    by (simp add: objectPrototypeKeys_def)
  from calculateScore_inherited_impact [OF m k] m k show ?thesis by simp
qed
section \<open>Properties of the Aggregator\<close>

lemma overallScore_eq:
  "overallScore (aggregateResults rs) =
     (let cs = filter (\<lambda>r. status r = ''completed'') rs in
      if cs = [] then 0
      else Math_round (js_div (foldl (\<lambda>sum r. js_add sum (of_int (scoreOf r))) 0 cs)
                              (of_int (int (length cs)))))"
  by (simp add: aggregateResults_def Let_def)

lemma scoreOf_plain: "enhancedAnalysis r = None \<Longrightarrow> scoreOf r = score (summary r)"
  by (simp add: scoreOf_def js_or_undef_def)

lemma scoreOf_contribution: "scoreOf r = contribution r"
  by (simp add: scoreOf_def contribution_def js_or_undef_def js_or_def
      split: option.splits)

text \<open>
  C1 (as stated, fails). A single completed page with basic score 50 and an enhanced
  analysis whose \<open>enhancedScore\<close> is 90: the report's score is 90, the mean of the completed
  pages' scores is 50.
\<close>

theorem aggregateResults_counterexample:
  "overallScore (aggregateResults [enhanced_page]) = 90 \<and> overallScore_spec [enhanced_page] = 50"
  by code_simp

text \<open>
  C1 (amended). For every sequence of scan results whose completed pages contribute
  non-negative scores with a sum below \<open>2^52\<close> (so that the additions of the program are
  exact), the report's score is the arithmetic mean, rounded to the nearest integer (a tie
  going up), of what the completed pages contribute (0 when no page is completed), where a
  page contributes its \<open>enhancedScore\<close> when it carries an enhanced analysis with a non-zero
  one and its summary score otherwise; so for results without enhanced analysis it is the
  rounded mean of the completed pages' scores. Pages that are not completed are left out of
  the mean and are counted in \<open>totalScans\<close>. For the three results with scores 80, failed,
  60: score 70, \<open>totalScans = 3\<close>, \<open>completedScans = 2\<close>. For a page with summary score 50 and
  enhanced score 90, a failed page and a page with score 80: score 85.
\<close>

theorem aggregateResults_overallScore:
  assumes "\<forall>r \<in> set rs. status r = ''completed'' \<longrightarrow> 0 \<le> contribution r"
    and "(\<Sum>r\<leftarrow>filter (\<lambda>r. status r = ''completed'') rs. contribution r) < 2 ^ 52"
  shows "overallScore (aggregateResults rs) =
           (let cs = filter (\<lambda>r. status r = ''completed'') rs in
            if cs = [] then 0
            else \<lfloor>(of_int (\<Sum>r\<leftarrow>cs. contribution r) :: rat) / of_int (int (length cs)) + 1 / 2\<rfloor>)
    \<and> (\<forall>r ea e. enhancedAnalysis r = Some ea \<longrightarrow> enhancedScore ea = Some e \<longrightarrow> e \<noteq> 0 \<longrightarrow>
          scoreOf r = e \<and> contribution r = e)
    \<and> (\<forall>r. enhancedAnalysis r = None \<or>
            Option.bind (enhancedAnalysis r) enhancedScore \<in> {None, Some 0} \<longrightarrow>
          scoreOf r = score (summary r) \<and> contribution r = score (summary r))
    \<and> totalScans (aggregateResults rs) = length rs
    \<and> completedScans (aggregateResults rs) = length (filter (\<lambda>r. status r = ''completed'') rs)
    \<and> failedScans (aggregateResults rs) = length (filter (\<lambda>r. status r = ''failed'') rs)
    \<and> ((\<forall>r \<in> set rs. enhancedAnalysis r = None) \<longrightarrow>
          overallScore (aggregateResults rs) = overallScore_spec rs)
    \<and> overallScore (aggregateResults three_pages) = 70
    \<and> totalScans (aggregateResults three_pages) = 3
    \<and> completedScans (aggregateResults three_pages) = 2
    \<and> overallScore (aggregateResults mixed_pages) = 85"
proof -
  define cs where "cs = filter (\<lambda>r. status r = ''completed'') rs"
  define S where "S = (\<Sum>r\<leftarrow>cs. contribution r)"
  have nonneg: "\<forall>r \<in> set cs. 0 \<le> contribution r"
    using assms(1) by (simp add: cs_def)
  then have S0: "0 \<le> S" unfolding S_def by (auto intro!: sum_list_nonneg)
  have S52: "S < 2 ^ 52" using assms(2) by (simp add: S_def cs_def)
  have "foldl (\<lambda>sum r. js_add sum (of_int (contribution r))) (of_int 0) cs
      = of_int (0 + (\<Sum>r\<leftarrow>cs. contribution r))"
    using nonneg S52 by (intro js_sum_exact) (simp_all add: S_def)
  then have total: "foldl (\<lambda>sum r. js_add sum (of_int (scoreOf r))) 0 cs = of_int S"
    by (simp add: scoreOf_contribution S_def)
  have main: "overallScore (aggregateResults rs) =
           (if cs = [] then 0
            else \<lfloor>(of_int S :: rat) / of_int (int (length cs)) + 1 / 2\<rfloor>)"
  proof (cases "cs = []")
    case True
    then show ?thesis by (simp add: overallScore_eq cs_def [symmetric])
  next
    case False
    then have n: "0 < int (length cs)" by simp
    have "\<bar>S\<bar> < 2 ^ 52" using S0 S52 by linarith
    from round_div_exact [OF n this] False show ?thesis
      by (simp add: overallScore_eq cs_def [symmetric] total)
  qed
  have enhanced: "\<forall>r ea e. enhancedAnalysis r = Some ea \<longrightarrow> enhancedScore ea = Some e \<longrightarrow> e \<noteq> 0 \<longrightarrow>
          scoreOf r = e \<and> contribution r = e"
    by (simp add: scoreOf_contribution contribution_def)
  have basic: "\<forall>r. enhancedAnalysis r = None \<or>
            Option.bind (enhancedAnalysis r) enhancedScore \<in> {None, Some 0} \<longrightarrow>
          scoreOf r = score (summary r) \<and> contribution r = score (summary r)"
    by (auto simp add: scoreOf_contribution contribution_def split: option.splits)
  have plain: "overallScore (aggregateResults rs) = overallScore_spec rs"
    if "\<forall>r \<in> set rs. enhancedAnalysis r = None"
  proof -
    have eq: "S = (\<Sum>r\<leftarrow>cs. score (summary r))"
      unfolding S_def
      by (rule arg_cong [where f = sum_list])
        (use that in \<open>simp add: cs_def scoreOf_plain scoreOf_contribution [symmetric]\<close>)
    show ?thesis
      unfolding main overallScore_spec_def Let_def cs_def [symmetric] eq ..
  qed
  have counts: "totalScans (aggregateResults rs) = length rs"
    "completedScans (aggregateResults rs) = length (filter (\<lambda>r. status r = ''completed'') rs)"
    "failedScans (aggregateResults rs) = length (filter (\<lambda>r. status r = ''failed'') rs)"
    by (simp_all add: aggregateResults_def Let_def)
  have ex: "overallScore (aggregateResults three_pages) = 70"
    "totalScans (aggregateResults three_pages) = 3"
    "completedScans (aggregateResults three_pages) = 2"
    "overallScore (aggregateResults mixed_pages) = 85"
    by code_simp+
  have first: "overallScore (aggregateResults rs) =
           (let cs = filter (\<lambda>r. status r = ''completed'') rs in
            if cs = [] then 0
            else \<lfloor>(of_int (\<Sum>r\<leftarrow>cs. contribution r) :: rat) / of_int (int (length cs)) + 1 / 2\<rfloor>)"
    using main by (simp add: cs_def S_def Let_def)
  have last: "(\<forall>r \<in> set rs. enhancedAnalysis r = None) \<longrightarrow>
          overallScore (aggregateResults rs) = overallScore_spec rs"
    using plain by blast
  show ?thesis
    by (intro conjI first enhanced basic counts last ex)
qed

theorem aggregateResults_overallScore_witness:
  "list_all (\<lambda>r. 0 \<le> contribution r) mixed_pages
   \<and> (\<Sum>r\<leftarrow>filter (\<lambda>r. status r = ''completed'') mixed_pages. contribution r) = 170
   \<and> length (filter (\<lambda>r. status r = ''completed'') mixed_pages) = 2
   \<and> enhancedAnalysis enhanced_page = Some \<lparr>enhancedScore = Some 90, remediationPlan = None\<rparr>
   \<and> scoreOf enhanced_page = 90
   \<and> contribution enhanced_page = 90
   \<and> overallScore (aggregateResults mixed_pages) = 85
   \<and> list_all (\<lambda>r. enhancedAnalysis r = None) three_pages
   \<and> scoreOf (page ''/'' ''completed'' 80) = 80
   \<and> overallScore (aggregateResults three_pages) = overallScore_spec three_pages
   \<and> overallScore_spec three_pages = 70"
proof -
  have m1: "\<forall>r \<in> set mixed_pages. status r = ''completed'' \<longrightarrow> 0 \<le> contribution r"
    by (simp add: mixed_pages_def enhanced_page_def page_def contribution_def)
  have m2': "(\<Sum>r\<leftarrow>filter (\<lambda>r. status r = ''completed'') mixed_pages. contribution r) = 170"
    by (simp add: mixed_pages_def enhanced_page_def page_def contribution_def)
  then have m2: "(\<Sum>r\<leftarrow>filter (\<lambda>r. status r = ''completed'') mixed_pages. contribution r) < 2 ^ 52"
    by simp
  have m3: "length (filter (\<lambda>r. status r = ''completed'') mixed_pages) = 2"
    by (simp add: mixed_pages_def enhanced_page_def page_def)
  have m4: "list_all (\<lambda>r. 0 \<le> contribution r) mixed_pages"
    by (simp add: mixed_pages_def enhanced_page_def page_def contribution_def)
  have e: "enhancedAnalysis enhanced_page = Some \<lparr>enhancedScore = Some 90, remediationPlan = None\<rparr>"
    by (simp add: enhanced_page_def)
  note mixed = aggregateResults_overallScore [OF m1 m2]
  from mixed e have e90: "scoreOf enhanced_page = 90 \<and> contribution enhanced_page = 90"
    by simp
  from mixed have o: "overallScore (aggregateResults mixed_pages) = 85"
    by (elim conjE)
  have t1: "\<forall>r \<in> set three_pages. status r = ''completed'' \<longrightarrow> 0 \<le> contribution r"
    by (simp add: three_pages_def page_def contribution_def)
  have t2: "(\<Sum>r\<leftarrow>filter (\<lambda>r. status r = ''completed'') three_pages. contribution r) < 2 ^ 52"
    by (simp add: three_pages_def page_def contribution_def)
  have p: "\<forall>r \<in> set three_pages. enhancedAnalysis r = None"
    by (simp add: three_pages_def page_def)
  have p80: "enhancedAnalysis (page ''/'' ''completed'' 80) = None"
    "score (summary (page ''/'' ''completed'' 80)) = 80"
    by (simp_all add: page_def)
  have s: "overallScore_spec three_pages = 70"
    by code_simp
  note three = aggregateResults_overallScore [OF t1 t2]
  from three p80 have s80: "scoreOf (page ''/'' ''completed'' 80) = 80"
    by simp
  from three p
  have "overallScore (aggregateResults three_pages) = overallScore_spec three_pages"
    by blast
  moreover have "list_all (\<lambda>r. enhancedAnalysis r = None) three_pages"
    using p by (simp add: list_all_iff)
  ultimately show ?thesis using m4 m2' m3 e e90 o s s80 by blast
qed








lemma nodesOfImpact_append: "nodesOfImpact k (vs @ ws) = nodesOfImpact k vs + nodesOfImpact k ws"
  by (simp add: nodesOfImpact_def)









text \<open>
  An impact that names an inherited property is not left out: a completed page whose only
  violation has the impact \<open>constructor\<close> gives the histogram a fifth key, whose value is a
  string.
\<close>

theorem violationsBySeverity_inherited_impact:
  "violationsBySeverity (aggregateResults [constructor_page]) =
     histogramOf 0 0 0 0 @ [(''constructor'', Text)]"
  by code_simp

text \<open>
  C8 (the program at the failing input). The key of \<open>deduplicateIssues\<close> is the concatenation
  \<open>issue.title + issue.description\<close>, so two issues whose titles and descriptions differ but
  concatenate to the same string collapse: of the issues (\<open>ab\<close>, \<open>c\<close>) and (\<open>a\<close>, \<open>bc\<close>),
  reported by two pages, only the first is in \<open>topPriority1Issues\<close>.
\<close>

theorem deduplicateIssues_key_collision:
  "(title issue_ab_c, description issue_ab_c) \<noteq> (title issue_a_bc, description issue_a_bc)
   \<and> deduplicateIssues [issue_ab_c, issue_a_bc] = [issue_ab_c]
   \<and> map_option topPriority1Issues
        (aggregatedRemediationPlan
           (aggregateResults [page_with_issue ''/'' issue_ab_c, page_with_issue ''/a'' issue_a_bc])) =
       Some [issue_ab_c]"
  by code_simp


section \<open>Properties of page discovery\<close>

lemma crawlLoop_total:
  "\<exists>s'. crawlLoop w baseUrl limit s = Some s'
        \<and> int (length (discovered s')) \<le> max (int (length (discovered s))) limit"
proof -
  have wf: "wf (inv_image (less_than <*lex*> less_than)
       (\<lambda>s. (nat (limit - int (length (discovered s))), length (toVisit s))))"
    by (intro wf_inv_image wf_lex_prod wf_less_than)
  show ?thesis
  proof (induction s rule: wf_induct_rule [OF wf])
  case (1 s)
  note 2 = this
  show ?case
  proof (cases "toVisit s \<noteq> [] \<and> int (length (discovered s)) < limit")
    case False
    then have "crawlLoop w baseUrl limit s = Some s"
      by (subst crawlLoop.simps) auto
    then show ?thesis by simp
  next
    case True
    define path where "path = hd (toVisit s)"
    define s1 where "s1 = s\<lparr>toVisit := tl (toVisit s)\<rparr>"
    show ?thesis
    proof (cases "path \<in> visited s1")
      case visited: True
      have step: "crawlLoop w baseUrl limit s = crawlLoop w baseUrl limit s1"
        using True visited
        by (subst crawlLoop.simps) (simp add: Let_def path_def s1_def)
      have "(s1, s) \<in> inv_image (less_than <*lex*> less_than)
              (\<lambda>s. (nat (limit - int (length (discovered s))), length (toVisit s)))"
        using True by (simp add: s1_def)
      from 2 [OF this] show ?thesis
        by (simp add: step s1_def)
    next
      case fresh: False
      define s3 where "s3 =
        s1\<lparr>visited := insert path (visited s1), discovered := discovered s1 @ [path],
            toVisit := enqueue (insert path (visited s1))
                         (extractLinksFromPage w (baseUrl @ path)) (toVisit s1)\<rparr>"
      have step: "crawlLoop w baseUrl limit s = crawlLoop w baseUrl limit s3"
        using True fresh
        by (subst crawlLoop.simps) (simp add: Let_def path_def s1_def s3_def)
      have len: "length (discovered s3) = Suc (length (discovered s))"
        by (simp add: s3_def s1_def)
      have "(s3, s) \<in> inv_image (less_than <*lex*> less_than)
              (\<lambda>s. (nat (limit - int (length (discovered s))), length (toVisit s)))"
        using True by (simp add: len)
      from 2 [OF this] obtain s' where
        s': "crawlLoop w baseUrl limit s3 = Some s'"
          "int (length (discovered s')) \<le> max (int (length (discovered s3))) limit"
        by blast
      from s'(2) True have "int (length (discovered s')) \<le> max (int (length (discovered s))) limit"
        by (simp add: len)
      with s'(1) step show ?thesis by simp
    qed
  qed
  qed
qed

text \<open>
  C5. For every site (every function from page URLs to link lists, cyclic or not), every list
  of seed paths and every page budget, the crawl loop ends: \<open>discoverByCrawling\<close> returns,
  and with a valid base URL it returns the discovered list. The list is never longer than
  \<open>min(pageBudget, 50)\<close> for a positive budget \<open>pageBudget = options.maxPages || this.maxPages\<close>
  (the budget of the data model is positive; for a budget below 1 the list is empty).
\<close>

theorem discoverByCrawling_terminates:
  "\<exists>r. discoverByCrawling this w baseUrl opts = Some r
      \<and> (newURL w baseUrl \<noteq> None \<longrightarrow> (\<exists>found. r = Inr found))
      \<and> (\<forall>found. r = Inr found \<longrightarrow>
            int (length found) \<le> max 0 (min (js_or_undef (optionsMaxPages opts) (maxPages this)) 50)
            \<and> (0 < js_or_undef (optionsMaxPages opts) (maxPages this) \<longrightarrow>
                 int (length found) \<le> min (js_or_undef (optionsMaxPages opts) (maxPages this)) 50))"
proof (cases "newURL w baseUrl")
  case None
  then show ?thesis by (simp add: discoverByCrawling_def Let_def)
next
  case (Some baseUrlObj)
  define seeds where "seeds = (case startPaths opts of None \<Rightarrow> [''/''] | Some ps \<Rightarrow> ps)"
  from crawlLoop_total [of w baseUrl "crawlLimit this opts"
      "\<lparr>toVisit = seeds, visited = {}, discovered = []\<rparr>"]
  obtain s' where s': "crawlLoop w baseUrl (crawlLimit this opts)
        \<lparr>toVisit = seeds, visited = {}, discovered = []\<rparr> = Some s'"
      "int (length (discovered s')) \<le> max 0 (crawlLimit this opts)"
    by auto
  have r: "discoverByCrawling this w baseUrl opts = Some (Inr (discovered s'))"
    using Some s'(1) by (simp add: discoverByCrawling_def Let_def seeds_def)
  from s'(2) have "int (length (discovered s')) \<le>
      max 0 (min (js_or_undef (optionsMaxPages opts) (maxPages this)) 50)"
    by (simp add: crawlLimit_def)
  with r show ?thesis by auto
qed

theorem discoverByCrawling_terminates_witness:
  "newURL small_site ''http://h'' \<noteq> None
   \<and> 0 < js_or_undef (optionsMaxPages \<lparr>optionsMaxPages = Some 2, startPaths = None, paths = None\<rparr>)
           (maxPages (constructor \<lparr>configMaxPages = None, configTimeout = None\<rparr>))
   \<and> discoverByCrawling (constructor \<lparr>configMaxPages = None, configTimeout = None\<rparr>) small_site
        ''http://h'' \<lparr>optionsMaxPages = Some 2, startPaths = None, paths = None\<rparr>
       = Some (Inr [''/'', ''/a''])
   \<and> int (length [''/'', ''/a'']) \<le> min 2 50"
proof -
  have e: "discoverByCrawling (constructor \<lparr>configMaxPages = None, configTimeout = None\<rparr>) small_site
        ''http://h'' \<lparr>optionsMaxPages = Some 2, startPaths = None, paths = None\<rparr>
       = Some (Inr [''/'', ''/a''])"
    by (simp add: discoverByCrawling_def crawlLimit_def constructor_def js_or_undef_def js_or_def
        crawlLoop.simps small_site_def enqueue_def Let_def)
  have u: "newURL small_site ''http://h'' \<noteq> None"
    by (simp add: small_site_def)
  have b: "js_or_undef (optionsMaxPages \<lparr>optionsMaxPages = Some 2, startPaths = None, paths = None\<rparr>)
           (maxPages (constructor \<lparr>configMaxPages = None, configTimeout = None\<rparr>)) = 2"
    by (simp add: js_or_undef_def js_or_def)
  from discoverByCrawling_terminates
    [of "constructor \<lparr>configMaxPages = None, configTimeout = None\<rparr>" small_site "''http://h''"
        "\<lparr>optionsMaxPages = Some 2, startPaths = None, paths = None\<rparr>"]
  have "int (length [''/'', ''/a'']) \<le> min 2 50"
    unfolding e b by auto
  with e u b show ?thesis by simp
qed

lemma childSitemaps_Cons:
  "childSitemaps parse w (e # es) =
     (case entryChild w e of
        None \<Rightarrow> childSitemaps parse w es
      | Some x \<Rightarrow>
          (case parse x of
             None \<Rightarrow> None
           | Some (Inl err) \<Rightarrow> childSitemaps parse w es
           | Some (Inr childPages) \<Rightarrow>
               map_option (\<lambda>pages. childPages @ pages) (childSitemaps parse w es)))"
  by (simp add: entryChild_def split: option.splits)

lemma fetchedChildren_Cons:
  "fetchedChildren w (e # es) =
     (case entryChild w e of None \<Rightarrow> fetchedChildren w es | Some x \<Rightarrow> x # fetchedChildren w es)"
  by (simp add: fetchedChildren_def split: option.splits)

lemma parseSitemap_Suc_eq:
  "parseSitemap (Suc depth) w sitemapXml baseUrl =
     (case documentParts w sitemapXml baseUrl of
        None \<Rightarrow> Some (Inl (Error ''Failed to parse sitemap''))
      | Some (pages, es) \<Rightarrow>
          map_option (\<lambda>childPages. Inr (pages @ childPages))
            (childSitemaps (\<lambda>childSitemapXml. parseSitemap depth w childSitemapXml baseUrl) w es))"
  by (simp add: documentParts_def split: option.splits)

lemma childSitemaps_None_iff:
  "childSitemaps parse w es = None \<longleftrightarrow> (\<exists>child \<in> set (fetchedChildren w es). parse child = None)"
proof (induction es)
  case Nil
  show ?case by (simp add: fetchedChildren_def)
next
  case (Cons e es)
  show ?case
  proof (cases "entryChild w e")
    case None
    then show ?thesis
      by (simp only: childSitemaps_Cons fetchedChildren_Cons Cons.IH option.case)
  next
    case (Some x)
    show ?thesis
    proof (cases "parse x")
      case None
      with Some show ?thesis
        by (simp add: childSitemaps_Cons fetchedChildren_Cons del: childSitemaps.simps)
    next
      case (Some r)
      with \<open>entryChild w e = Some x\<close> Cons.IH show ?thesis
        by (cases r) (simp_all add: childSitemaps_Cons fetchedChildren_Cons del: childSitemaps.simps)
    qed
  qed
qed

lemma parseSitemap_None_iff:
  "parseSitemap (Suc depth) w sitemapXml baseUrl = None \<longleftrightarrow>
     (\<exists>child \<in> set (childDocuments w sitemapXml baseUrl). parseSitemap depth w child baseUrl = None)"
proof (cases "documentParts w sitemapXml baseUrl")
  case None
  then show ?thesis
    by (simp add: parseSitemap_Suc_eq childDocuments_def del: parseSitemap.simps)
next
  case (Some p)
  then show ?thesis
    by (cases p)
       (simp add: parseSitemap_Suc_eq childDocuments_def childSitemaps_None_iff
          del: parseSitemap.simps)
qed

lemma parseSitemap_returns_iff:
  "parseSitemap depth w sitemapXml baseUrl \<noteq> None \<longleftrightarrow> nestingWithin depth w sitemapXml baseUrl"
proof (induction depth arbitrary: sitemapXml)
  case 0
  show ?case by simp
next
  case (Suc depth)
  have "nestingWithin (Suc depth) w sitemapXml baseUrl \<longleftrightarrow>
      (\<forall>child \<in> set (childDocuments w sitemapXml baseUrl). parseSitemap depth w child baseUrl \<noteq> None)"
    using Suc.IH by simp
  also have "\<dots> \<longleftrightarrow> parseSitemap (Suc depth) w sitemapXml baseUrl \<noteq> None"
    unfolding parseSitemap_None_iff by simp
  finally show ?case by simp
qed

lemma childSitemaps_mono:
  assumes "\<And>x r. parse x = Some r \<Longrightarrow> parse' x = Some r"
    and "childSitemaps parse w es = Some ps"
  shows "childSitemaps parse' w es = Some ps"
  using assms(2)
proof (induction es arbitrary: ps)
  case Nil
  then show ?case by simp
next
  case (Cons e es)
  show ?case
  proof (cases "entryChild w e")
    case None
    with Cons show ?thesis
      by (simp add: childSitemaps_Cons del: childSitemaps.simps)
  next
    case (Some x)
    show ?thesis
    proof (cases "parse x")
      case None
      with Some Cons.prems show ?thesis
        by (simp add: childSitemaps_Cons del: childSitemaps.simps)
    next
      case r: (Some r)
      then have r': "parse' x = Some r" by (rule assms(1))
      show ?thesis
      proof (cases r)
        case (Inl err)
        with Some r r' Cons show ?thesis
          by (simp add: childSitemaps_Cons del: childSitemaps.simps)
      next
        case (Inr childPages)
        with Some r Cons.prems obtain rest where
          rest: "childSitemaps parse w es = Some rest" "ps = childPages @ rest"
          by (auto simp add: childSitemaps_Cons simp del: childSitemaps.simps)
        from Cons.IH [OF rest(1)] Some r' Inr rest(2) show ?thesis
          by (simp add: childSitemaps_Cons del: childSitemaps.simps)
      qed
    qed
  qed
qed

lemma parseSitemap_Suc:
  "parseSitemap depth w sitemapXml baseUrl = Some r \<Longrightarrow>
   parseSitemap (Suc depth) w sitemapXml baseUrl = Some r"
proof (induction depth arbitrary: sitemapXml r)
  case 0
  then show ?case by simp
next
  case (Suc depth)
  have m: "\<And>x r. parseSitemap depth w x baseUrl = Some r \<Longrightarrow> parseSitemap (Suc depth) w x baseUrl = Some r"
    by (rule Suc.IH)
  show ?case
  proof (cases "documentParts w sitemapXml baseUrl")
    case None
    with Suc.prems show ?thesis
      by (simp add: parseSitemap_Suc_eq del: parseSitemap.simps)
  next
    case (Some p)
    obtain pages es where p: "p = (pages, es)" by (cases p)
    from Suc.prems Some p obtain cp where
      cp: "childSitemaps (\<lambda>x. parseSitemap depth w x baseUrl) w es = Some cp" "r = Inr (pages @ cp)"
      by (auto simp add: parseSitemap_Suc_eq simp del: parseSitemap.simps)
    from childSitemaps_mono [of "\<lambda>x. parseSitemap depth w x baseUrl"
        "\<lambda>x. parseSitemap (Suc depth) w x baseUrl", OF m cp(1)]
    have "childSitemaps (\<lambda>x. parseSitemap (Suc depth) w x baseUrl) w es = Some cp" .
    with Some p cp(2) show ?thesis
      by (simp add: parseSitemap_Suc_eq [of "Suc depth"] del: parseSitemap.simps)
  qed
qed

lemma parseSitemap_mono:
  "parseSitemap depth w sitemapXml baseUrl = Some r \<Longrightarrow>
   parseSitemap (depth + k) w sitemapXml baseUrl = Some r"
  by (induction k) (simp_all add: parseSitemap_Suc del: parseSitemap.simps)

lemma nested_children:
  "childDocuments nested_indexes (nested_doc n) b = (case n of 0 \<Rightarrow> [] | Suc m \<Rightarrow> [nested_doc m])"
  by (cases n)
     (simp_all add: childDocuments_def documentParts_def nested_indexes_def nested_doc_def
        fetchedChildren_def entryChild_def)

lemma nested_within: "nestingWithin depth nested_indexes (nested_doc n) b \<longleftrightarrow> n < depth"
proof (induction depth arbitrary: n)
  case 0
  show ?case by simp
next
  case (Suc depth)
  show ?case
    by (cases n) (simp_all add: nested_children Suc.IH)
qed

lemma self_never: "parseSitemap depth self_index ''<sitemapindex>'' ''http://h'' = None"
proof (induction depth)
  case 0
  show ?case by simp
next
  case (Suc depth)
  then show ?case by (simp add: self_index_def)
qed

text \<open>
  C6 (as stated, fails). \<open>parseSitemap\<close> has no depth counter. Where every sitemap URL
  serves a sitemap index that references a sitemap URL again, no depth of recursion is enough:
  \<open>parseSitemap\<close> does not return, and neither does \<open>discoverFromSitemap\<close>.
\<close>

theorem parseSitemap_unbounded_counterexample:
  "\<not> (\<exists>depth. parseSitemap depth self_index ''<sitemapindex>'' ''http://h'' \<noteq> None)
   \<and> \<not> (\<exists>depth. discoverFromSitemap depth self_index ''http://h'' \<noteq> None)"
proof -
  have "discoverFromSitemap depth self_index ''http://h'' = None" for depth
    using self_never [of depth]
    by (simp add: discoverFromSitemap_def) (simp add: self_index_def)
  with self_never show ?thesis by simp
qed

text \<open>
  C6 (amended). \<open>parseSitemap\<close> does not bound its recursion: it recurses exactly as deep as
  the sitemap indexes nest. It returns within \<open>depth\<close> nested calls if and only if every chain
  of child sitemaps below the document has fewer than \<open>depth\<close> documents, and a deeper bound
  does not change what it returns. For every \<open>n\<close> there are sitemap indexes nested so that
  \<open>n\<close> nested calls are not enough and \<open>n + 1\<close> are.
\<close>

theorem parseSitemap_depth_is_nesting:
  "(parseSitemap depth w sitemapXml baseUrl \<noteq> None \<longleftrightarrow> nestingWithin depth w sitemapXml baseUrl)
   \<and> (\<forall>r. parseSitemap depth w sitemapXml baseUrl = Some r \<longrightarrow>
          parseSitemap (depth + k) w sitemapXml baseUrl = Some r)
   \<and> parseSitemap n nested_indexes (nested_doc n) ''http://h'' = None
   \<and> parseSitemap (Suc n) nested_indexes (nested_doc n) ''http://h'' \<noteq> None"
proof -
  have a: "parseSitemap n nested_indexes (nested_doc n) ''http://h'' = None"
    using parseSitemap_returns_iff [of n nested_indexes "nested_doc n" "''http://h''"]
    by (simp add: nested_within)
  have b: "parseSitemap (Suc n) nested_indexes (nested_doc n) ''http://h'' \<noteq> None"
    by (simp only: parseSitemap_returns_iff nested_within lessI)
  from a b parseSitemap_returns_iff parseSitemap_mono show ?thesis
    by blast
qed

theorem parseSitemap_depth_is_nesting_witness:
  "nestingWithin 3 nested_indexes (nested_doc 2) ''http://h''
   \<and> parseSitemap 3 nested_indexes (nested_doc 2) ''http://h'' = Some (Inr [''/p''])
   \<and> parseSitemap (3 + 4) nested_indexes (nested_doc 2) ''http://h'' = Some (Inr [''/p''])
   \<and> parseSitemap 2 nested_indexes (nested_doc 2) ''http://h'' = None"
proof -
  have e: "parseSitemap 3 nested_indexes (nested_doc 2) ''http://h'' = Some (Inr [''/p''])"
    by code_simp
  with parseSitemap_depth_is_nesting [of 3 nested_indexes "nested_doc 2" "''http://h''" 4 2]
  show ?thesis by simp
qed

text \<open>
  C3 (the program at the failing input). The trailing slash is removed before the query
  string is cut off, so a slash in front of a query string stays: the output for
  \<open>/about/?x=1\<close> is \<open>/about/\<close>, which is not a Path.
\<close>

theorem normalizePaths_trailing_slash:
  "normalizePaths [''/about/?x=1''] = [''/about/''] \<and> \<not> isPath ''/about/''"
  by code_simp

text \<open>
  C4 (the program at the failing input). Normalizing \<open>/a/?x\<close> gives \<open>/a/\<close>; normalizing that
  again gives \<open>/a\<close>.
\<close>

theorem normalizePaths_not_idempotent:
  "normalizePaths [''/a/?x''] = [''/a/'']
   \<and> normalizePaths (normalizePaths [''/a/?x'']) = [''/a'']"
  by code_simp

text \<open>
  C7 (the program at the failing input). \<open>discoverPages\<close> compares the number of pages with
  \<open>this.maxPages\<close>, the cap the object was constructed with, and slices to it; it does not
  read \<open>options.maxPages\<close>. The action constructs the object with its \<open>max-pages\<close> input and
  passes the cap of the run, which the account limit may have lowered since, as
  \<open>options.maxPages\<close>. An object constructed with the cap 10 (also the default), asked for
  the strategy \<open>paths\<close> with the options \<open>{maxPages: 1, paths: ['/a', '/b']}\<close>, returns both
  paths.
\<close>

theorem discoverPages_counterexample:
  "discoverPages 0 (action_discovery 10) small_site ''http://h'' ''paths'' (two_paths (Some 1))
     = Some [''/a'', ''/b'']
   \<and> discoverPages 0 default_discovery small_site ''http://h'' ''paths'' (two_paths (Some 1))
     = Some [''/a'', ''/b'']
   \<and> maxPages (action_discovery 10) = 10
   \<and> maxPages default_discovery = 10
   \<and> optionsMaxPages (two_paths (Some 1)) = Some 1
   \<and> \<not> int (length [''/a'', ''/b'']) \<le> 1"
  by code_simp

lemma maxPages_constructor:
  "maxPages (constructor cfg) =
     (case configMaxPages cfg of None \<Rightarrow> 10 | Some n \<Rightarrow> if n \<noteq> 0 then n else 10)"
  by (simp add: constructor_def js_or_undef_def js_or_def split: option.splits)

lemma discoverByCrawling_returns: "\<exists>r. discoverByCrawling this w baseUrl opts = Some r"
proof (cases "newURL w baseUrl")
  case None
  then show ?thesis by (simp add: discoverByCrawling_def Let_def)
next
  case (Some baseUrlObj)
  define seeds where "seeds = (case startPaths opts of None \<Rightarrow> [''/''] | Some ps \<Rightarrow> ps)"
  from crawlLoop_total [of w baseUrl "crawlLimit this opts"
      "\<lparr>toVisit = seeds, visited = {}, discovered = []\<rparr>"]
  obtain s' where "crawlLoop w baseUrl (crawlLimit this opts)
        \<lparr>toVisit = seeds, visited = {}, discovered = []\<rparr> = Some s'"
    by auto
  with Some show ?thesis by (simp add: discoverByCrawling_def Let_def seeds_def)
qed

lemma strategyPages_returns:
  "toLowerCase strategy \<noteq> ''sitemap'' \<Longrightarrow>
   \<exists>r. strategyPages depth this w baseUrl strategy opts = Some r"
  using discoverByCrawling_returns [of this w baseUrl opts]
  by (auto simp add: strategyPages_def Let_def)

text \<open>
  The cap of \<open>discoverPages\<close>. For every strategy other than \<open>sitemap\<close> the call returns. For
  every strategy, every options value and a positive cap \<open>this.maxPages\<close>, the page list
  that \<open>discoverPages\<close> returns is the Link Normalizer's output for the pages of the
  strategy, truncated to the first \<open>this.maxPages\<close> entries, or \<open>['/']\<close> when the strategy
  fails with an error, so its length never exceeds \<open>this.maxPages\<close>; \<open>this.maxPages\<close> is the
  cap given to the constructor (10 when it is absent or 0).
\<close>

theorem discoverPages_truncates:
  assumes "0 < maxPages this"
  shows "(toLowerCase strategy \<noteq> ''sitemap'' \<longrightarrow>
            (\<exists>pages. discoverPages depth this w baseUrl strategy opts = Some pages))
       \<and> (\<forall>pages. discoverPages depth this w baseUrl strategy opts = Some pages \<longrightarrow>
            ((\<exists>found. strategyPages depth this w baseUrl strategy opts = Some (Inr found)
                \<and> pages = take (nat (maxPages this)) (normalizePaths found))
              \<or> (\<exists>e. strategyPages depth this w baseUrl strategy opts = Some (Inl e)
                    \<and> pages = [''/'']))
            \<and> int (length pages) \<le> maxPages this)
       \<and> maxPages (constructor cfg) =
           (case configMaxPages cfg of None \<Rightarrow> 10 | Some n \<Rightarrow> if n \<noteq> 0 then n else 10)"
proof -
  have total: "\<exists>pages. discoverPages depth this w baseUrl strategy opts = Some pages"
    if "toLowerCase strategy \<noteq> ''sitemap''"
  proof -
    from strategyPages_returns [OF that]
    obtain r where "strategyPages depth this w baseUrl strategy opts = Some r" by blast
    then show ?thesis
      by (cases r) (simp_all add: discoverPages_def Let_def)
  qed
  have cut: "((\<exists>found. strategyPages depth this w baseUrl strategy opts = Some (Inr found)
                \<and> pages = take (nat (maxPages this)) (normalizePaths found))
              \<or> (\<exists>e. strategyPages depth this w baseUrl strategy opts = Some (Inl e)
                    \<and> pages = [''/'']))
            \<and> int (length pages) \<le> maxPages this"
    if ret: "discoverPages depth this w baseUrl strategy opts = Some pages" for pages
  proof (cases "strategyPages depth this w baseUrl strategy opts")
    case None
    with ret show ?thesis by (simp add: discoverPages_def)
  next
    case (Some r)
    show ?thesis
    proof (cases r)
      case (Inl e)
      with Some ret have "pages = [''/'']" by (simp add: discoverPages_def)
      with Some Inl assms show ?thesis by simp
    next
      case (Inr found)
      from assms have cut: "slice0 (normalizePaths found) (maxPages this) =
          take (nat (maxPages this)) (normalizePaths found)"
        by (simp add: slice0_def)
      from Some Inr ret have "pages =
          (if int (length (normalizePaths found)) > maxPages this
           then take (nat (maxPages this)) (normalizePaths found) else normalizePaths found)"
        by (auto simp add: discoverPages_def Let_def cut)
      then have p: "pages = take (nat (maxPages this)) (normalizePaths found)"
        by (simp split: if_splits)
      then have "int (length pages) \<le> maxPages this"
        using assms by simp
      with p Some Inr show ?thesis by simp
    qed
  qed
  from total cut maxPages_constructor [of cfg] show ?thesis
    by blast
qed

theorem discoverPages_truncates_witness:
  "0 < maxPages one_page_discovery
   \<and> toLowerCase ''paths'' \<noteq> ''sitemap''
   \<and> discoverPages 0 one_page_discovery small_site ''http://h'' ''paths'' (two_paths None) = Some [''/a'']
   \<and> int (length [''/a'']) \<le> maxPages one_page_discovery"
proof -
  have e: "discoverPages 0 one_page_discovery small_site ''http://h'' ''paths'' (two_paths None)
      = Some [''/a'']"
    by code_simp
  have c: "0 < maxPages one_page_discovery"
    by (simp add: one_page_discovery_def constructor_def js_or_undef_def js_or_def)
  have l: "toLowerCase ''paths'' \<noteq> ''sitemap''"
    by code_simp
  from discoverPages_truncates
    [where this = one_page_discovery and depth = 0 and w = small_site and baseUrl = "''http://h''"
       and strategy = "''paths''" and opts = "two_paths None", OF c] e
  have "int (length [''/a'']) \<le> maxPages one_page_discovery"
    by blast
  with e c l show ?thesis by (intro conjI)
qed


section \<open>Further properties of the Link Normalizer\<close>

lemma startsWith_slash: "startsWith p ''/'' \<longleftrightarrow> (\<exists>rest. p = CHR ''/'' # rest)"
  by (cases p) (auto simp add: startsWith_def)

lemma normalizePath_shape:
  "startsWith (normalizePath p) ''/'' \<and> CHR ''?'' \<notin> set (normalizePath p)
   \<and> CHR ''#'' \<notin> set (normalizePath p)"
proof -
  define q where "q = (if startsWith p ''/'' then p else ''/'' @ p)"
  define r where "r = (if q \<noteq> ''/'' \<and> endsWith q ''/'' then butlast q else q)"
  have n: "normalizePath p = takeWhile (\<lambda>c. c \<noteq> CHR ''?'' \<and> c \<noteq> CHR ''#'') r"
    by (simp add: normalizePath_def Let_def q_def r_def)
  obtain rest where q: "q = CHR ''/'' # rest"
    by (cases "startsWith p ''/''") (auto simp add: q_def startsWith_slash)
  have "\<exists>rest'. r = CHR ''/'' # rest'"
  proof (cases "q \<noteq> ''/'' \<and> endsWith q ''/''")
    case True
    with q have "rest \<noteq> []" by auto
    with True q show ?thesis by (simp add: r_def)
  next
    case False
    with q show ?thesis by (auto simp add: r_def)
  qed
  then obtain rest' where r: "r = CHR ''/'' # rest'" ..
  have a: "startsWith (normalizePath p) ''/''"
    by (simp add: n r startsWith_slash)
  have "\<forall>c \<in> set (normalizePath p). c \<noteq> CHR ''?'' \<and> c \<noteq> CHR ''#''"
    unfolding n by (auto dest: set_takeWhileD)
  with a show ?thesis by blast
qed

lemma set_setAdd: "set (setAdd s x) = insert x (set s)"
  by (auto simp add: setAdd_def)

lemma set_normalizeLoop:
  "set (normalizeLoop ps acc) = set acc \<union> normalizePath ` {p \<in> set ps. p \<noteq> []}"
  by (induction ps arbitrary: acc) (auto simp add: set_setAdd)

lemma indexOf_nth:
  "0 \<le> indexOf xs x \<Longrightarrow> nat (indexOf xs x) < length xs \<and> xs ! nat (indexOf xs x) = x"
proof (induction xs)
  case Nil
  then show ?case by simp
next
  case (Cons y ys)
  show ?case
  proof (cases "y = x")
    case True
    then show ?thesis by simp
  next
    case False
    with Cons.prems have i: "0 \<le> indexOf ys x"
      by (simp add: Let_def split: if_splits)
    with False have "indexOf (y # ys) x = indexOf ys x + 1"
      by (simp add: Let_def)
    moreover have "nat (indexOf ys x + 1) = Suc (nat (indexOf ys x))"
      using i by simp
    ultimately show ?thesis using Cons.IH [OF i] by simp
  qed
qed

lemma normalizePaths_rootFirst: "normalizePaths ps = rootFirst (sort (normalizeLoop ps []))"
  by (simp add: normalizePaths_def rootFirst_def Let_def)

lemma rootFirst_cases:
  obtains "rootFirst xs = xs"
  | before after where "xs = before @ ''/'' # after" "rootFirst xs = ''/'' # (before @ after)"
proof (cases "0 < indexOf xs ''/''")
  case False
  then have "rootFirst xs = xs" by (simp add: rootFirst_def Let_def)
  then show ?thesis by (rule that(1))
next
  case True
  define i where "i = nat (indexOf xs ''/'')"
  from True indexOf_nth [of xs "''/''"] have i: "i < length xs" "xs ! i = ''/''"
    by (simp_all add: i_def)
  have "xs = take i xs @ xs ! i # drop (Suc i) xs"
    using i(1) by (rule id_take_nth_drop)
  then have d: "xs = take i xs @ ''/'' # drop (Suc i) xs"
    using i(2) by simp
  have "rootFirst xs = ''/'' # (take i xs @ drop (Suc i) xs)"
    using True by (simp add: rootFirst_def Let_def i_def)
  with d show ?thesis by (rule that(2))
qed

lemma set_rootFirst: "set (rootFirst xs) = set xs"
proof (cases xs rule: rootFirst_cases)
  case 1
  then show ?thesis by simp
next
  case (2 before after)
  have "set (rootFirst xs) = set (''/'' # (before @ after))" by (simp only: 2(2))
  also have "\<dots> = set (before @ ''/'' # after)" by auto
  also have "\<dots> = set xs" by (simp only: 2(1) [symmetric])
  finally show ?thesis .
qed

lemma distinct_rootFirst: "distinct xs \<Longrightarrow> distinct (rootFirst xs)"
proof (cases xs rule: rootFirst_cases)
  case 1
  assume "distinct xs"
  with 1 show ?thesis by simp
next
  case (2 before after)
  assume "distinct xs"
  then have "distinct (before @ ''/'' # after)" by (simp only: 2(1) [symmetric])
  then have "distinct (''/'' # (before @ after))" by auto
  then show ?thesis by (simp only: 2(2))
qed

lemma set_normalizePaths:
  "set (normalizePaths ps) = normalizePath ` {p \<in> set ps. p \<noteq> []}"
  by (simp add: normalizePaths_rootFirst set_rootFirst set_normalizeLoop)

text \<open>
  X1. Every path in the output of \<open>normalizePaths\<close> starts with \<open>/\<close> and carries no query
  string or fragment: two of the three parts of the Path invariant hold for every input.
\<close>

theorem normalizePaths_start_and_query:
  "\<forall>p \<in> set (normalizePaths ps).
      startsWith p ''/'' \<and> CHR ''?'' \<notin> set p \<and> CHR ''#'' \<notin> set p"
  using normalizePath_shape by (auto simp add: set_normalizePaths)

theorem normalizePaths_start_and_query_witness:
  "normalizePaths [''about'', ''/x/?q#f''] = [''/about'', ''/x/'']
   \<and> startsWith ''/x/'' ''/'' \<and> CHR ''?'' \<notin> set ''/x/'' \<and> CHR ''#'' \<notin> set ''/x/''"
proof -
  have e: "normalizePaths [''about'', ''/x/?q#f''] = [''/about'', ''/x/'']"
    by code_simp
  from normalizePaths_start_and_query [of "[''about'', ''/x/?q#f'']"]
  show ?thesis unfolding e by simp
qed

lemma isPath_fixed:
  assumes "isPath p"
  shows "p \<noteq> [] \<and> normalizePath p = p"
proof -
  from assms have st: "startsWith p ''/''" and tr: "p = ''/'' \<or> \<not> endsWith p ''/''"
    and q: "CHR ''?'' \<notin> set p" "CHR ''#'' \<notin> set p"
    by (simp_all add: isPath_def)
  from st have ne: "p \<noteq> []" by (auto simp add: startsWith_slash)
  from tr have "(if p \<noteq> ''/'' \<and> endsWith p ''/'' then butlast p else p) = p" by auto
  moreover have "takeWhile (\<lambda>c. c \<noteq> CHR ''?'' \<and> c \<noteq> CHR ''#'') p = p"
    using q by (auto simp add: takeWhile_eq_all_conv)
  ultimately have "normalizePath p = p"
    using st by (simp add: normalizePath_def Let_def)
  with ne show ?thesis ..
qed

lemma distinct_setAdd: "distinct s \<Longrightarrow> distinct (setAdd s x)"
  by (simp add: setAdd_def)

lemma distinct_normalizeLoop: "distinct acc \<Longrightarrow> distinct (normalizeLoop ps acc)"
  by (induction ps arbitrary: acc) (simp_all add: distinct_setAdd)

lemma normalizeLoop_fixed:
  assumes "\<forall>p \<in> set ps. isPath p" "distinct (acc @ ps)"
  shows "normalizeLoop ps acc = acc @ ps"
  using assms
proof (induction ps arbitrary: acc)
  case Nil
  then show ?case by simp
next
  case (Cons p ps)
  from Cons.prems(1) have p: "p \<noteq> []" "normalizePath p = p"
    using isPath_fixed [of p] by simp_all
  from Cons.prems(2) have "p \<notin> set acc" by auto
  then have a: "setAdd acc p = acc @ [p]" by (simp add: setAdd_def)
  from Cons.prems have "normalizeLoop ps (acc @ [p]) = (acc @ [p]) @ ps"
    by (intro Cons.IH) simp_all
  with p a show ?case by simp
qed

lemma normalizePaths_shape:
  "distinct (normalizePaths ps) \<and> sort (normalizePaths ps) = sort (normalizeLoop ps [])"
proof -
  have d: "distinct (sort (normalizeLoop ps []))"
    by (simp add: distinct_normalizeLoop)
  then have "distinct (normalizePaths ps)"
    by (simp only: normalizePaths_rootFirst distinct_rootFirst)
  moreover have "sort (normalizePaths ps) = sort (normalizeLoop ps [])"
  proof (rule sorted_distinct_set_unique)
    show "sorted (sort (normalizePaths ps))" by simp
    show "distinct (sort (normalizePaths ps))" using \<open>distinct (normalizePaths ps)\<close> by simp
    show "sorted (sort (normalizeLoop ps []))" by simp
    show "distinct (sort (normalizeLoop ps []))" by (rule d)
    show "set (sort (normalizePaths ps)) = set (sort (normalizeLoop ps []))"
      by (simp add: normalizePaths_rootFirst set_rootFirst)
  qed
  ultimately show ?thesis ..
qed

text \<open>
  X2. \<open>normalizePaths\<close> is idempotent on every input whose normalization consists of Paths:
  idempotence fails only through an output that keeps a trailing slash.
\<close>

theorem normalizePaths_idempotent_on_paths:
  assumes "\<forall>p \<in> set (normalizePaths ps). isPath p"
  shows "normalizePaths (normalizePaths ps) = normalizePaths ps"
proof -
  have "normalizeLoop (normalizePaths ps) [] = [] @ normalizePaths ps"
    using assms normalizePaths_shape [of ps] by (intro normalizeLoop_fixed) simp_all
  then have "normalizePaths (normalizePaths ps) = rootFirst (sort (normalizePaths ps))"
    by (simp add: normalizePaths_rootFirst [of "normalizePaths ps"])
  also have "\<dots> = rootFirst (sort (normalizeLoop ps []))"
    using normalizePaths_shape [of ps] by simp
  also have "\<dots> = normalizePaths ps"
    by (simp only: normalizePaths_rootFirst)
  finally show ?thesis .
qed

theorem normalizePaths_idempotent_on_paths_witness:
  "normalizePaths [''about'', ''/about/'', ''/about?x=1#y'', ''/''] = [''/'', ''/about'']
   \<and> isPath ''/'' \<and> isPath ''/about''
   \<and> normalizePaths [''/'', ''/about''] = [''/'', ''/about'']"
proof -
  have e: "normalizePaths [''about'', ''/about/'', ''/about?x=1#y'', ''/''] = [''/'', ''/about'']"
    by code_simp
  have p: "isPath ''/''" "isPath ''/about''"
    by code_simp+
  then have "\<forall>p \<in> set (normalizePaths [''about'', ''/about/'', ''/about?x=1#y'', ''/'']). isPath p"
    by (simp add: e)
  from normalizePaths_idempotent_on_paths [OF this] e p show ?thesis
    by simp
qed

lemma root_least: "startsWith p ''/'' \<Longrightarrow> ''/'' \<le> p"
  by (auto simp add: startsWith_slash)

lemma rootFirst_sorted:
  assumes "sorted xs" "\<forall>p \<in> set xs. ''/'' \<le> p"
  shows "rootFirst xs = xs"
proof (cases "0 < indexOf xs ''/''")
  case False
  then show ?thesis by (simp add: rootFirst_def Let_def)
next
  case True
  define i where "i = nat (indexOf xs ''/'')"
  from True indexOf_nth [of xs "''/''"] have i: "i < length xs" "xs ! i = ''/''"
    by (simp_all add: i_def)
  then obtain y ys where xs: "xs = y # ys" by (cases xs) auto
  from assms(1) i have "xs ! 0 \<le> xs ! i"
    by (intro sorted_nth_mono) simp_all
  with i(2) xs have "y \<le> ''/''" by simp
  moreover from assms(2) xs have "''/'' \<le> y" by simp
  ultimately have "y = ''/''" by (rule antisym)
  with xs have "indexOf xs ''/'' = 0" by simp
  with True show ?thesis by simp
qed

text \<open>
  X7. The output of \<open>normalizePaths\<close> is the sorted list of the distinct normalized non-empty
  inputs. The root path, when present, is first already after sorting, since every output
  starts with \<open>/\<close>; the step that moves it to the front never changes the list.
\<close>

theorem normalizePaths_sorted_distinct:
  "normalizePaths ps = sort (normalizeLoop ps [])
   \<and> sorted (normalizePaths ps) \<and> distinct (normalizePaths ps)
   \<and> set (normalizePaths ps) = normalizePath ` {p \<in> set ps. p \<noteq> []}
   \<and> (if ''/'' \<in> set (normalizePaths ps) then hd (normalizePaths ps) = ''/'' else True)"
proof -
  have "\<forall>p \<in> set (sort (normalizeLoop ps [])). ''/'' \<le> p"
    using normalizePath_shape by (auto simp add: set_normalizeLoop intro: root_least)
  then have eq: "normalizePaths ps = sort (normalizeLoop ps [])"
    by (simp only: normalizePaths_rootFirst) (rule rootFirst_sorted, simp_all)
  have s: "sorted (normalizePaths ps)" by (simp add: eq)
  have least: "\<forall>p \<in> set (normalizePaths ps). ''/'' \<le> p"
    using normalizePath_shape by (auto simp add: set_normalizePaths intro: root_least)
  have "hd (normalizePaths ps) = ''/''" if "''/'' \<in> set (normalizePaths ps)"
  proof -
    from that obtain y ys where n: "normalizePaths ps = y # ys"
      by (cases "normalizePaths ps") auto
    from s that n have "y \<le> ''/''" by auto
    moreover from least n have "''/'' \<le> y" by simp
    ultimately show ?thesis using n by simp
  qed
  with eq s normalizePaths_shape [of ps] set_normalizePaths [of ps] show ?thesis
    by simp
qed


section \<open>Further properties: issue deduplication and the examples of the specification\<close>

lemma dedupLoop_firstOccurrences:
  "dedupLoop issues unique seen =
     unique @ firstOccurrences (filter (\<lambda>issue. issueKey issue \<notin> seen) issues)"
proof (induction issues arbitrary: unique seen)
  case Nil
  show ?case by simp
next
  case (Cons issue rest)
  show ?case
  proof (cases "issueKey issue \<in> seen")
    case True
    then show ?thesis
      using Cons.IH [of unique seen] by (simp add: issueKey_def Let_def)
  next
    case False
    have "filter (\<lambda>other. issueKey other \<noteq> issueKey issue)
            (filter (\<lambda>other. issueKey other \<notin> seen) rest) =
          filter (\<lambda>other. issueKey other \<notin> insert (issueKey issue) seen) rest"
      by (simp add: conj_commute)
    with False show ?thesis
      using Cons.IH [of "unique @ [issue]" "insert (issueKey issue) seen"]
      by (simp add: issueKey_def [symmetric] Let_def)
  qed
qed

text \<open>
  X3. \<open>deduplicateIssues\<close> returns the first five of the first occurrences of its input under
  the key \<open>title + description\<close>: the first-seen issue of each key is retained, in the order of
  the input, and at most five issues are returned.
\<close>

theorem deduplicateIssues_first_seen:
  "deduplicateIssues issues = take 5 (firstOccurrences issues)
   \<and> length (deduplicateIssues issues) \<le> 5"
  by (simp add: deduplicateIssues_def dedupLoop_firstOccurrences)

text \<open>
  X4. The examples of the specification for the Link Normalizer:
  \<open>normalize(["about", "/about/", "/about?x=1#y"])\<close> is \<open>["/about"]\<close>, \<open>normalize([])\<close> is \<open>[]\<close>,
  and \<open>/\<close> comes first.
\<close>

theorem normalizePaths_examples:
  "normalizePaths [''about'', ''/about/'', ''/about?x=1#y''] = [''/about'']
   \<and> normalizePaths [] = []
   \<and> normalizePaths [''/b'', ''/a'', ''/''] = [''/'', ''/a'', ''/b'']"
  by code_simp

text \<open>
  X5. The end-to-end example of the specification: the strategy \<open>paths\<close> with the input
  \<open>"/\n/about\n\n# comment\n/contact"\<close> yields \<open>["/", "/about", "/contact"]\<close>.
\<close>

theorem discoverPages_manual_example:
  "discoverPages 0 default_discovery small_site ''http://h'' ''paths'' manual_example
     = Some [''/'', ''/about'', ''/contact'']"
  by code_simp

text \<open>
  X6. The sitemap example of the specification: a sitemap index that references two child
  sitemaps with three and four URLs yields the seven paths.
\<close>

theorem discoverPages_sitemap_example:
  "discoverPages 2 default_discovery two_children ''http://h'' ''sitemap''
      \<lparr>optionsMaxPages = None, startPaths = None, paths = None\<rparr>
     = Some [''/a'', ''/b'', ''/c'', ''/d'', ''/e'', ''/f'', ''/g'']"
  by code_simp

end
